theory Spec2Isabelle
  imports Main
begin

section \<open>Model documents\<close>

text \<open>
  A DTDL model document is a JSON object. The dependency scan of the pseudo parser reads
  three members only: \<open>"@id"\<close>, \<open>contents\<close> and \<open>extends\<close>. A member that may be
  missing is an option (\<open>None\<close> is JavaScript's \<open>undefined\<close>).

  A value of which the code only asks \<open>typeof v === "string"\<close> is a \<open>jv\<close>: a string, missing,
  or anything else (an object, an array, a number).
\<close>

datatype jv = JUndefined | JStr string | JOther

text \<open>An element of \<open>contents\<close>, with its \<open>"@type"\<close> and \<open>schema\<close> members.\<close>

datatype element = Element (etype: jv) (schema: jv)

text \<open>
  \<open>extends\<close> is a single string, an array whose elements are strings, inline model objects
  or something else, or a single inline object.
\<close>

datatype dtdl = DTDL (at_id: "string option") (contents: "element list option") (extends: ext)
  and ext = ExtUndefined | ExtStr string | ExtArr "extElem list" | ExtObj dtdl
  and extElem = EStr string | EObj dtdl | EOther

text \<open>
  The array \<open>dependencies\<close> built by \<open>_getModelDependencies\<close> is untyped: the code pushes
  strings into it and, for an inline object of \<open>extends\<close>, the whole array returned by the
  recursive call (\<open>dependencies.push(this._getModelDependencies(element))\<close>). So an entry is
  a string or a nested array.
\<close>

datatype dep = DStr string | DArr "dep list"

section \<open>\<open>_getModelDependencies\<close>\<close>

text \<open>
  \<open>Array.from(new Set(dependencies))\<close> keeps the first occurrence of every value, in
  insertion order. A \<open>Set\<close> compares strings by value and arrays by identity; every nested
  array is a fresh one, so nested arrays are never dropped.
\<close>

fun setFrom :: "string list \<Rightarrow> dep list \<Rightarrow> dep list" where
  "setFrom seen [] = []"
| "setFrom seen (DStr s # ds) =
     (if s \<in> set seen then setFrom seen ds else DStr s # setFrom (s # seen) ds)"
| "setFrom seen (DArr a # ds) = DArr a # setFrom seen ds"

definition arrayFromSet :: "dep list \<Rightarrow> dep list" where
  "arrayFromSet ds = setFrom [] ds"

text \<open>
  The body of \<open>contents.forEach\<close>: an element whose \<open>"@type"\<close> is the string
  \<open>"Component"\<close> and whose \<open>schema\<close> is a truthy (non-empty) string pushes that string.
\<close>

definition componentSchema :: "element \<Rightarrow> dep list" where
  "componentSchema el =
     (if etype el = JStr ''Component''
      then (case schema el of JStr s \<Rightarrow> (if s \<noteq> [] then [DStr s] else []) | _ \<Rightarrow> [])
      else [])"

definition contentsDependencies :: "element list option \<Rightarrow> dep list" where
  "contentsDependencies c = (case c of None \<Rightarrow> [] | Some els \<Rightarrow> concat (map componentSchema els))"

text \<open>
  The scan itself. The three functions follow the three types: the model, its \<open>extends\<close>
  member, and one element of an \<open>extends\<close> array. A single inline object in \<open>extends\<close> is
  neither a string nor an array and pushes nothing.
\<close>

primrec getModelDependencies :: "dtdl \<Rightarrow> dep list"
  and extendsDependencies :: "ext \<Rightarrow> dep list"
  and elementDependencies :: "extElem \<Rightarrow> dep list" where
  "getModelDependencies (DTDL i c e) =
     arrayFromSet (contentsDependencies c @ extendsDependencies e)"
| "extendsDependencies ExtUndefined = []"
| "extendsDependencies (ExtStr s) = [DStr s]"
| "extendsDependencies (ExtArr es) = concat (map elementDependencies es)"
| "extendsDependencies (ExtObj m) = []"
| "elementDependencies (EStr s) = [DStr s]"
| "elementDependencies (EObj m) = [DArr (getModelDependencies m)]"
| "elementDependencies EOther = []"

section \<open>JavaScript objects used as maps\<close>

text \<open>
  A model map is a plain JavaScript object: its own string keys in insertion order, each
  with one value. It is an association list; \<open>setProp m k v\<close> is \<open>m[k] = v\<close> (an existing key
  keeps its place, a new one goes to the end) and \<open>hasProp k m\<close> is \<open>k in m\<close>. Keys are
  DTMIs, which are never names inherited from \<open>Object.prototype\<close>.
\<close>

type_synonym obj = "(string \<times> dtdl) list"

fun setProp :: "obj \<Rightarrow> string \<Rightarrow> dtdl \<Rightarrow> obj" where
  "setProp [] k v = [(k, v)]"
| "setProp ((k', v') # m) k v =
     (if k' = k then (k', v) # m else (k', v') # setProp m k v)"

definition hasProp :: "string \<Rightarrow> obj \<Rightarrow> bool" where
  "hasProp k m = (k \<in> set (map fst m))"

text \<open>
  \<open>dependency in modelMap\<close> turns its left operand into a property key: a string is its own
  key, an array is the keys of its elements joined by commas.
\<close>

fun joinWith :: "string \<Rightarrow> string list \<Rightarrow> string" where
  "joinWith sep [] = []"
| "joinWith sep [s] = s"
| "joinWith sep (s # t # ss) = s @ sep @ joinWith sep (t # ss)"

primrec depKey :: "dep \<Rightarrow> string" where
  "depKey (DStr s) = s"
| "depKey (DArr ds) = joinWith '','' (map depKey ds)"

text \<open>
  \<open>Object.keys(resolvedDependenciesMap).forEach((key) => modelMap[key] = ...)\<close>: every
  entry of the resolved object is assigned into the model map, in key order.
\<close>

definition assignAll :: "obj \<Rightarrow> obj \<Rightarrow> obj" where
  "assignAll m resolved = foldl (\<lambda>m (k, v). setProp m k v) m resolved"

section \<open>Errors and the resolver\<close>

text \<open>
  What the code throws or lets through: a \<open>RestError\<close> of the HTTP pipeline with its status
  code (a missing document is status 404), the \<open>Error\<close> of \<open>expand\<close>, the \<open>EvalError\<close> of
  \<open>getModels\<close>, the \<open>TypeError\<close> of a call of something that is not a function, and any
  other error of the resolver and its fetcher.
\<close>

datatype err = RestError nat | Error string | EvalError string | TypeError string | OtherError string

text \<open>\<open>e instanceof RestError\<close>\<close>

fun isRestError :: "err \<Rightarrow> bool" where
  "isRestError (RestError c) = True"
| "isRestError e = False"

text \<open>
  \<open>DtmiResolver.resolve(dtmis, tryFromExpanded)\<close> is not part of the sources at hand. It is
  a parameter of everything below: a function from the requested batch and the flag
  (\<open>None\<close> when the caller passes no second argument) to the error it throws or the
  object it returns. The repository is taken to be fixed during one call, so the same
  request has the same outcome.
\<close>

type_synonym resolver = "dep list \<Rightarrow> bool option \<Rightarrow> err + obj"

section \<open>\<open>PseudoParser.expand\<close> and \<open>_expand\<close>\<close>

text \<open>
  \<open>_expand\<close> is an async function. A call runs synchronously up to its first \<open>await\<close>: it
  scans the model, filters the dependencies against the model map as it is then, and, if
  something is left, calls the resolver and suspends. The calls for all values of a
  resolved batch are started one after the other (\<open>promiseList.push(this._expand(...))\<close>)
  and joined by \<open>Promise.all\<close>, so several of them are suspended at once and their
  resolutions complete in an order the code does not fix.

  The state of one \<open>expand\<close> call is the shared model map, the suspended calls (the batch
  each waits for, and whether it is already waiting for the retry of the \<open>catch\<close> branch),
  and the log of the calls made to the resolver.
\<close>

record pool =
  modelMap :: obj
  pending :: "(dep list \<times> bool) list"
  calls :: "(dep list \<times> bool option) list"

text \<open>The synchronous part of \<open>_expand(model, modelMap, tryFromExpanded)\<close>.\<close>

definition startExpand :: "bool option \<Rightarrow> dtdl \<Rightarrow> pool \<Rightarrow> pool" where
  "startExpand tryFromExpanded model st =
     (let dependencies = getModelDependencies model;
          dependenciesToResolve =
            filter (\<lambda>dependency. \<not> hasProp (depKey dependency) (modelMap st)) dependencies
      in if dependenciesToResolve \<noteq> []
         then st\<lparr>pending := pending st @ [(dependenciesToResolve, False)],
                 calls := calls st @ [(dependenciesToResolve, tryFromExpanded)]\<rparr>
         else st)"

text \<open>
  The suspended call number \<open>i\<close> goes on, its resolution having completed. A rejection
  with a \<open>RestError\<close> at the first attempt is caught: the same batch is resolved again with
  \<open>false\<close>, and the call is suspended again. Any other rejection, and a rejection of the
  retry, is thrown. A resolved batch is assigned into the model map; then \<open>_expand\<close> is
  started for each of its values.
\<close>

definition resumeExpand :: "resolver \<Rightarrow> bool option \<Rightarrow> nat \<Rightarrow> pool \<Rightarrow> err + pool" where
  "resumeExpand resolver tryFromExpanded i st =
     (case pending st ! i of (dependenciesToResolve, retried) \<Rightarrow>
        (case resolver dependenciesToResolve (if retried then Some False else tryFromExpanded) of
           Inr resolvedDependenciesMap \<Rightarrow>
             Inr (foldl (\<lambda>s dependencyModel. startExpand tryFromExpanded dependencyModel s)
                    (st\<lparr>modelMap := assignAll (modelMap st) resolvedDependenciesMap,
                        pending := take i (pending st) @ drop (Suc i) (pending st)\<rparr>)
                    (map snd resolvedDependenciesMap))
         | Inl e \<Rightarrow>
             (if \<not> retried \<and> isRestError e
              then Inr (st\<lparr>pending := (pending st)[i := (dependenciesToResolve, True)],
                           calls := calls st @ [(dependenciesToResolve, Some False)]\<rparr>)
              else Inl e)))"

text \<open>
  \<open>await this._expand(model, expandedMap, tryFromExpanded)\<close> returns when no call is
  suspended any more, and throws as soon as one call throws (\<open>Promise.all\<close> rejects with
  the first rejection). The order of completion is the schedule: its next number picks,
  among the suspended calls, the one whose resolution completes next. A schedule that
  ends while calls are still suspended has not seen the end of the run: the result is
  \<open>None\<close>. Otherwise the rest of the schedule is handed back.
\<close>

fun runPool :: "resolver \<Rightarrow> bool option \<Rightarrow> nat list \<Rightarrow> pool \<Rightarrow> (err + pool \<times> nat list) option" where
  "runPool resolver tryFromExpanded [] st =
     (if pending st = [] then Some (Inr (st, [])) else None)"
| "runPool resolver tryFromExpanded (i # schedule) st =
     (if pending st = [] then Some (Inr (st, i # schedule))
      else (case resumeExpand resolver tryFromExpanded (i mod length (pending st)) st of
              Inl e \<Rightarrow> Some (Inl e)
            | Inr st' \<Rightarrow> runPool resolver tryFromExpanded schedule st'))"

text \<open>
  The \<open>for\<close> loop of \<open>expand\<close>: each model is stored under its \<open>"@id"\<close> and expanded before
  the next one is looked at; a model without \<open>"@id"\<close> throws.
\<close>

fun expandLoop ::
  "resolver \<Rightarrow> bool option \<Rightarrow> nat list \<Rightarrow> pool \<Rightarrow> dtdl list \<Rightarrow> (err + pool \<times> nat list) option" where
  "expandLoop resolver tryFromExpanded schedule st [] = Some (Inr (st, schedule))"
| "expandLoop resolver tryFromExpanded schedule st (model # models) =
     (case at_id model of
        None \<Rightarrow> Some (Inl (Error ''model [object Object] does not contain @id member''))
      | Some i \<Rightarrow>
          (case runPool resolver tryFromExpanded schedule
                  (startExpand tryFromExpanded model (st\<lparr>modelMap := setProp (modelMap st) i model\<rparr>)) of
             None \<Rightarrow> None
           | Some (Inl e) \<Rightarrow> Some (Inl e)
           | Some (Inr (st', schedule')) \<Rightarrow>
               expandLoop resolver tryFromExpanded schedule' st' models))"

text \<open>
  \<open>expand(models, tryFromExpanded)\<close>: the error thrown, or the expanded map together with
  the calls made to the resolver.
\<close>

definition expand ::
  "resolver \<Rightarrow> nat list \<Rightarrow> dtdl list \<Rightarrow> bool option
     \<Rightarrow> (err + obj \<times> (dep list \<times> bool option) list) option" where
  "expand resolver schedule models tryFromExpanded =
     (case expandLoop resolver tryFromExpanded schedule
             \<lparr>modelMap = [], pending = [], calls = []\<rparr> models of
        None \<Rightarrow> None
      | Some (Inl e) \<Rightarrow> Some (Inl e)
      | Some (Inr (st, schedule')) \<Rightarrow> Some (Inr (modelMap st, calls st)))"

section \<open>\<open>ModelsRepositoryClient.getModels\<close>\<close>

text \<open>
  The three modes of dependency resolution; \<open>OtherMode s\<close> is a string \<open>s\<close> that is none of
  the three names, which a caller may pass in spite of the declared type (the empty
  string is falsy).
\<close>

datatype dependencyResolutionType = Disabled | Enabled | TryFromExpanded | OtherMode string

text \<open>The first argument of \<open>getModels\<close>: one DTMI or an array of DTMIs.\<close>

datatype dtmisArg = One string | Many "string list"

text \<open>\<open>if (!Array.isArray(dtmis)) { dtmis = [dtmis]; }\<close>\<close>

fun toArray :: "dtmisArg \<Rightarrow> string list" where
  "toArray (One dtmi) = [dtmi]"
| "toArray (Many dtmis) = dtmis"

text \<open>
  \<open>options?.dependencyResolution || this._dependencyResolution\<close>: the option of the call
  when it is given and truthy, the client's configured mode otherwise.
\<close>

fun resolutionMode ::
  "dependencyResolutionType option \<Rightarrow> dependencyResolutionType \<Rightarrow> dependencyResolutionType" where
  "resolutionMode None configured = configured"
| "resolutionMode (Some (OtherMode [])) configured = configured"
| "resolutionMode (Some mode) configured = mode"

text \<open>
  \<open>getModels(dtmis, options)\<close> of a client with the given resolver and configured mode.
  The result is the error thrown, or the returned value with the calls made to the
  resolver; the returned value is \<open>None\<close> when the function returns \<open>undefined\<close>, which is
  what is left in \<open>modelMap\<close> when the \<open>catch\<close> branch of the \<open>tryFromExpanded\<close> mode has
  swallowed a \<open>RestError\<close>.
\<close>

definition getModels ::
  "resolver \<Rightarrow> dependencyResolutionType \<Rightarrow> nat list \<Rightarrow> dtmisArg \<Rightarrow> dependencyResolutionType option
     \<Rightarrow> (err + obj option \<times> (dep list \<times> bool option) list) option" where
  "getModels resolver configured schedule dtmisArg options =
     (let dtmis = map DStr (toArray dtmisArg) in
      case resolutionMode options configured of
        Disabled \<Rightarrow>
          (case resolver dtmis None of
             Inl e \<Rightarrow> Some (Inl e)
           | Inr resolved \<Rightarrow> Some (Inr (Some resolved, [(dtmis, None)])))
      | Enabled \<Rightarrow>
          (case resolver dtmis None of
             Inl e \<Rightarrow> Some (Inl e)
           | Inr baseModelMap \<Rightarrow>
               (let baseModelList = List.map_filter (map_of baseModelMap) (map fst baseModelMap) in
                case expand resolver schedule baseModelList None of
                  None \<Rightarrow> None
                | Some (Inl e) \<Rightarrow> Some (Inl e)
                | Some (Inr (expanded, log)) \<Rightarrow> Some (Inr (Some expanded, (dtmis, None) # log))))
      | TryFromExpanded \<Rightarrow>
          (case resolver dtmis (Some True) of
             Inr resolved \<Rightarrow> Some (Inr (Some resolved, [(dtmis, Some True)]))
           | Inl e \<Rightarrow>
               (if isRestError e then Some (Inr (None, [(dtmis, Some True)])) else Some (Inl e)))
      | OtherMode mode \<Rightarrow>
          Some (Inl (EvalError (''Invalid dependency resolution mode: '' @ mode))))"

section \<open>The synchronous variant of the pseudo parser\<close>

text \<open>
  The sources hold a second, synchronous \<open>PseudoParser\<close> (its resolver is called without
  \<open>await\<close> and without a flag, and a model without \<open>"@id"\<close> is not refused). Its \<open>_expand\<close>
  does not assign into the map it is given:
  \<open>modelMap = { ...modelMap, ...resolvedDependenciesMap }\<close> binds the parameter to a new
  object, which only the recursive calls below see; then it iterates
  \<open>resolvedDependenciesMap.values()\<close>.

  What the resolver of this variant returns is not in the sources, and the two uses do
  not fit one kind of value: the spread copies the entries of a plain object and nothing
  of a \<open>Map\<close>, while \<open>.values()\<close> is a method of a \<open>Map\<close> and is \<open>undefined\<close> on a plain object
  (and on a promise), where calling it throws a \<open>TypeError\<close>. The model takes both kinds.

  The recursion is not bounded by the code, so the model takes the depth it may reach;
  \<open>None\<close> is a recursion that goes deeper.
\<close>

datatype resolved = AsMap obj | AsObject obj

type_synonym syncResolver = "dep list \<Rightarrow> err + resolved"

text \<open>A \<open>for ... of\<close> loop that stops at the first call that throws or does not return.\<close>

fun forEachValue :: "('a \<Rightarrow> (err + unit) option) \<Rightarrow> 'a list \<Rightarrow> (err + unit) option" where
  "forEachValue f [] = Some (Inr ())"
| "forEachValue f (x # xs) =
     (case f x of
        None \<Rightarrow> None
      | Some (Inl e) \<Rightarrow> Some (Inl e)
      | Some (Inr u) \<Rightarrow> forEachValue f xs)"

primrec expand_rec_sync :: "nat \<Rightarrow> syncResolver \<Rightarrow> dtdl \<Rightarrow> obj \<Rightarrow> (err + unit) option" where
  "expand_rec_sync 0 resolver model m = None"
| "expand_rec_sync (Suc depth) resolver model m =
     (let dependencies = getModelDependencies model;
          dependenciesToResolve =
            filter (\<lambda>dependency. \<not> hasProp (depKey dependency) m) dependencies
      in if dependenciesToResolve \<noteq> []
         then (case resolver dependenciesToResolve of
                 Inl e \<Rightarrow> Some (Inl e)
               | Inr (AsObject entries) \<Rightarrow>
                   (let m' = assignAll m entries
                    in Some (Inl (TypeError ''resolvedDependenciesMap.values is not a function'')))
               | Inr (AsMap entries) \<Rightarrow>
                   (let m' = m
                    in forEachValue (\<lambda>dependencyModel. expand_rec_sync depth resolver dependencyModel m')
                         (map snd entries)))
         else Some (Inr ()))"

text \<open>
  \<open>expandedMap[model['@id']] = model\<close>: a model without \<open>"@id"\<close> is stored under the key
  \<open>"undefined"\<close>.
\<close>

definition idKey :: "dtdl \<Rightarrow> string" where
  "idKey model = (case at_id model of None \<Rightarrow> ''undefined'' | Some i \<Rightarrow> i)"

fun expand_sync_loop :: "nat \<Rightarrow> syncResolver \<Rightarrow> obj \<Rightarrow> dtdl list \<Rightarrow> (err + obj) option" where
  "expand_sync_loop depth resolver expandedMap [] = Some (Inr expandedMap)"
| "expand_sync_loop depth resolver expandedMap (model # models) =
     (let expandedMap' = setProp expandedMap (idKey model) model
      in case expand_rec_sync depth resolver model expandedMap' of
           None \<Rightarrow> None
         | Some (Inl e) \<Rightarrow> Some (Inl e)
         | Some (Inr u) \<Rightarrow> expand_sync_loop depth resolver expandedMap' models)"

definition expand_sync :: "nat \<Rightarrow> syncResolver \<Rightarrow> dtdl list \<Rightarrow> (err + obj) option" where
  "expand_sync depth resolver models = expand_sync_loop depth resolver [] models"

section \<open>Addressing\<close>

text \<open>
  Modelled from the spec: the addressing function \<open>toPath\<close> is not part of the sources at
  hand. The specification reads: a DTMI has the scheme \<open>dtmi:<path-segments>;<version>\<close>,
  the path segments separated by colons, the version a positive integer; \<open>toPath\<close> splits
  the DTMI on \<open>:\<close> and \<open>;\<close>, lower-cases every segment, joins the path segments with \<open>/\<close>
  and appends \<open>-<version>.json\<close>; it fails with \<open>InvalidDtmiFormat\<close> when the input does
  not match the scheme (non-numeric version, empty segment, disallowed characters). The
  characters allowed in a segment are taken to be letters, digits and the underscore.
\<close>

datatype addressingError = InvalidDtmiFormat

definition upperLetters :: string where
  "upperLetters = ''ABCDEFGHIJKLMNOPQRSTUVWXYZ''"

definition lowerLetters :: string where
  "lowerLetters = ''abcdefghijklmnopqrstuvwxyz''"

definition digits :: string where
  "digits = ''0123456789''"

definition toLowerCase :: "char \<Rightarrow> char" where
  "toLowerCase c = (case map_of (zip upperLetters lowerLetters) c of Some l \<Rightarrow> l | None \<Rightarrow> c)"

text \<open>\<open>splitOn seps cur s\<close> splits \<open>s\<close> at every character of \<open>seps\<close>; \<open>cur\<close> is the segment read so far.\<close>

fun splitOn :: "string \<Rightarrow> string \<Rightarrow> string \<Rightarrow> string list" where
  "splitOn seps cur [] = [cur]"
| "splitOn seps cur (c # cs) =
     (if c \<in> set seps then cur # splitOn seps [] cs else splitOn seps (cur @ [c]) cs)"

definition validSegment :: "string \<Rightarrow> bool" where
  "validSegment seg =
     (seg \<noteq> [] \<and> list_all (\<lambda>c. c \<in> set (lowerLetters @ upperLetters @ digits @ ''_'')) seg)"

definition validVersion :: "string \<Rightarrow> bool" where
  "validVersion v = (v \<noteq> [] \<and> list_all (\<lambda>c. c \<in> set digits) v \<and> hd v \<noteq> CHR ''0'')"

text \<open>
  Modelled from the spec: the check of the scheme \<open>dtmi:<path-segments>;<version>\<close> (not in
  the sources): one \<open>;\<close>, before it the scheme name \<open>dtmi\<close> and at least one segment, each
  segment non-empty and of allowed characters, after it a positive integer.
\<close>

definition validDtmi :: "string \<Rightarrow> bool" where
  "validDtmi dtmi =
     (case splitOn '';'' [] dtmi of
        [path, version] \<Rightarrow>
          (case splitOn '':'' [] path of
             scheme # seg # segs \<Rightarrow> scheme = ''dtmi'' \<and> list_all validSegment (seg # segs)
           | _ \<Rightarrow> False)
          \<and> validVersion version
      | _ \<Rightarrow> False)"

text \<open>
  Modelled from the spec: \<open>toPath\<close> (not in the sources): split on \<open>:\<close> and \<open>;\<close>, lower-case
  every segment, join the path segments with \<open>/\<close>, append \<open>-<version>.json\<close>; an input that
  does not match the scheme fails with \<open>InvalidDtmiFormat\<close>.
\<close>

definition toPath :: "string \<Rightarrow> addressingError + string" where
  "toPath dtmi =
     (if \<not> validDtmi dtmi then Inl InvalidDtmiFormat
      else (let segments = map (map toLowerCase) (splitOn '':;'' [] dtmi)
            in Inr (joinWith ''/'' (butlast segments) @ ''-'' @ last segments @ ''.json'')))"

section \<open>A small repository\<close>

text \<open>
  Two models that extend each other, a model without dependencies, and resolvers over
  them: \<open>exRepo\<close> returns the documents of the requested identifiers and throws a
  \<open>RestError\<close> of status 404 when one is unknown; \<open>exRepoPlain\<close> has no expanded documents
  (a request with the flag \<open>true\<close> is a 404); \<open>exRepoBusy\<close> answers such a request with
  status 500; \<open>exOffline\<close> always throws.
\<close>

definition exA :: dtdl where
  "exA = DTDL (Some ''dtmi:com:example:A;1'') None (ExtStr ''dtmi:com:example:B;1'')"

definition exB :: dtdl where
  "exB = DTDL (Some ''dtmi:com:example:B;1'') None (ExtStr ''dtmi:com:example:A;1'')"

definition exLeaf :: dtdl where
  "exLeaf = DTDL (Some ''dtmi:com:example:Leaf;1'') None ExtUndefined"

definition exUser :: dtdl where
  "exUser = DTDL (Some ''dtmi:com:example:User;1'')
     (Some [Element (JStr ''Component'') (JStr ''dtmi:com:example:Leaf;1'')]) ExtUndefined"

definition exTable :: obj where
  "exTable = [(''dtmi:com:example:A;1'', exA), (''dtmi:com:example:B;1'', exB),
              (''dtmi:com:example:Leaf;1'', exLeaf), (''dtmi:com:example:User;1'', exUser)]"

definition exLookup :: "dep list \<Rightarrow> err + obj" where
  "exLookup ds =
     (if list_all (\<lambda>d. hasProp (depKey d) exTable) ds
      then Inr (List.map_filter (\<lambda>d. map_option (Pair (depKey d)) (map_of exTable (depKey d))) ds)
      else Inl (RestError 404))"

definition exRepo :: resolver where
  "exRepo ds flag = exLookup ds"

definition exRepoPlain :: resolver where
  "exRepoPlain ds flag = (if flag = Some True then Inl (RestError 404) else exLookup ds)"

definition exRepoBusy :: resolver where
  "exRepoBusy ds flag = (if flag = Some True then Inl (RestError 500) else exLookup ds)"

definition exOffline :: resolver where
  "exOffline ds flag = Inl (OtherError ''offline'')"

text \<open>
  A larger repository: the six documents of \<open>exGraph\<close>. \<open>Hub\<close> has the component \<open>User\<close>
  and extends \<open>Relay\<close>; \<open>Relay\<close> extends \<open>Hub\<close> and \<open>A\<close>; \<open>A\<close> and \<open>B\<close> extend each other;
  \<open>User\<close> has the component \<open>Leaf\<close>. The resolver \<open>exGraphRepo\<close> has no expanded documents
  (a request with the flag \<open>true\<close> is a 404); otherwise it returns the object that holds
  the requested documents, each under its identifier.
\<close>

definition exHub :: dtdl where
  "exHub = DTDL (Some ''dtmi:com:example:Hub;1'')
     (Some [Element (JStr ''Component'') (JStr ''dtmi:com:example:User;1'')])
     (ExtStr ''dtmi:com:example:Relay;1'')"

definition exRelay :: dtdl where
  "exRelay = DTDL (Some ''dtmi:com:example:Relay;1'') None
     (ExtArr [EStr ''dtmi:com:example:Hub;1'', EStr ''dtmi:com:example:A;1''])"

definition exGraph :: obj where
  "exGraph = exTable @ [(''dtmi:com:example:Hub;1'', exHub), (''dtmi:com:example:Relay;1'', exRelay)]"

definition exGraphRepo :: resolver where
  "exGraphRepo ds flag =
     (if flag \<noteq> Some True \<and> list_all (\<lambda>d. hasProp (depKey d) exGraph) ds
      then Inr (assignAll []
                  (List.map_filter (\<lambda>d. map_option (Pair (depKey d)) (map_of exGraph (depKey d))) ds))
      else Inl (RestError 404))"

text \<open>
  A model whose \<open>extends\<close> is a single inline object, which in turn extends the model
  \<open>dtmi:com:example:Base;1\<close>:
  \<open>{ "@id": "dtmi:com:example:Thermostat;1", extends: { extends: "dtmi:com:example:Base;1" } }\<close>.
\<close>

definition exInline :: dtdl where
  "exInline = DTDL (Some ''dtmi:com:example:Thermostat;1'') None
     (ExtObj (DTDL None None (ExtStr ''dtmi:com:example:Base;1'')))"

section \<open>Vocabulary of the statements\<close>

text \<open>
  A document is covered in a state of the expansion when each of its string
  dependencies is a key of the model map or is in a batch that a suspended call waits for.
\<close>

definition covered :: "pool \<Rightarrow> dtdl \<Rightarrow> bool" where
  "covered st v =
     (\<forall>s. DStr s \<in> set (getModelDependencies v)
        \<longrightarrow> hasProp s (modelMap st) \<or> (\<exists>t\<in>set (pending st). DStr s \<in> set (fst t)))"

text \<open>
  The outcome of a resolver call is good when the call returned, or threw a \<open>RestError\<close>
  and the same batch resolved with \<open>false\<close> returned.
\<close>

definition recovered :: "resolver \<Rightarrow> dep list \<times> bool option \<Rightarrow> bool" where
  "recovered resolver call =
     ((\<exists>res. resolver (fst call) (snd call) = Inr res)
      \<or> (\<exists>c res. resolver (fst call) (snd call) = Inl (RestError c)
                  \<and> resolver (fst call) (Some False) = Inr res))"

text \<open>
  The invariant behind the closure of the expanded map: the initial models looked at so
  far and the documents in the map are covered, and the initial models looked at so far
  are keys of the map.
\<close>

definition closedInv :: "dtdl list \<Rightarrow> pool \<Rightarrow> bool" where
  "closedInv ms st =
     ((\<forall>w\<in>set ms \<union> snd ` set (modelMap st). covered st w)
      \<and> (\<forall>model\<in>set ms. \<exists>k. at_id model = Some k \<and> hasProp k (modelMap st)))"

text \<open>
  The invariant behind the failure policy: a call suspended for its retry has a first
  attempt that threw a \<open>RestError\<close>, and every logged resolver call is good or belongs to
  a call that is still suspended.
\<close>

definition policyInv :: "resolver \<Rightarrow> bool option \<Rightarrow> pool \<Rightarrow> bool" where
  "policyInv r tfe st =
     ((\<forall>t\<in>set (pending st). snd t \<longrightarrow> (\<exists>c. r (fst t) tfe = Inl (RestError c)))
      \<and> (\<forall>call\<in>set (calls st).
            recovered r call
            \<or> (snd call = tfe \<and> (fst call, False) \<in> set (pending st))
            \<or> ((fst call, True) \<in> set (pending st) \<and> (snd call = tfe \<or> snd call = Some False))))"

text \<open>
  A resolver's answer to a batch over a repository \<open>table\<close>: documents of the repository
  under their keys, no key twice (the answer is an object), every requested key among
  them.
\<close>

definition answer :: "obj \<Rightarrow> dep list \<Rightarrow> obj \<Rightarrow> bool" where
  "answer table deps m =
     (set m \<subseteq> set table \<and> distinct (map fst m) \<and> (\<forall>d\<in>set deps. hasProp (depKey d) m))"

text \<open>
  The measure behind the termination of the expansion. The height of a suspended call is
  the number of keys of the repository that are neither in the model map nor in the
  batch the call waits for; a call weighs \<open>(2 (n + 1)) ^ height\<close>, \<open>n\<close> the size of the
  repository, and twice that before its first attempt has completed; the weight of a
  state is the sum over its suspended calls.
\<close>

definition height :: "obj \<Rightarrow> pool \<Rightarrow> dep list \<Rightarrow> nat" where
  "height table st deps =
     card (fst ` set table - (fst ` set (modelMap st) \<union> depKey ` set deps))"

definition taskWeight :: "obj \<Rightarrow> pool \<Rightarrow> dep list \<times> bool \<Rightarrow> nat" where
  "taskWeight table st t =
     (if snd t then 1 else 2) * (2 * Suc (length table)) ^ height table st (fst t)"

definition weight :: "obj \<Rightarrow> pool \<Rightarrow> nat" where
  "weight table st = sum_list (map (taskWeight table st) (pending st))"

text \<open>The calls that \<open>startExpand\<close> suspends for a document: one, or none.\<close>

definition newTasks :: "pool \<Rightarrow> dtdl \<Rightarrow> (dep list \<times> bool) list" where
  "newTasks st v =
     (let todo = filter (\<lambda>d. \<not> hasProp (depKey d) (modelMap st)) (getModelDependencies v)
      in if todo \<noteq> [] then [(todo, False)] else [])"

text \<open>
  The invariant behind the termination: the closure invariant; the keys of the model map
  are distinct; every entry of the map is an entry of the repository or an initial model
  under its \<open>"@id"\<close>; every suspended call waits for keys of the repository, and the retry
  of a call that waits for its retry will be answered.
\<close>

definition termInv :: "resolver \<Rightarrow> obj \<Rightarrow> dtdl list \<Rightarrow> pool \<Rightarrow> bool" where
  "termInv resolver table ms st =
     (closedInv ms st
      \<and> distinct (map fst (modelMap st))
      \<and> (\<forall>(k, v)\<in>set (modelMap st). (k, v) \<in> set table \<or> (v \<in> set ms \<and> at_id v = Some k))
      \<and> (\<forall>t\<in>set (pending st).
            (\<forall>d\<in>set (fst t). hasProp (depKey d) table)
            \<and> (snd t \<longrightarrow> (\<exists>m. resolver (fst t) (Some False) = Inr m \<and> answer table (fst t) m))))"

text \<open>
  The identifier \<open>a\<close> is a key of the model map, and no batch, suspended or logged,
  asks for it.
\<close>

definition unrequested :: "string \<Rightarrow> pool \<Rightarrow> bool" where
  "unrequested a st =
     (hasProp a (modelMap st)
      \<and> (\<forall>t\<in>set (pending st). a \<notin> depKey ` set (fst t))
      \<and> (\<forall>call\<in>set (calls st). a \<notin> depKey ` set (fst call)))"

section \<open>Evaluation and basic facts\<close>

lemmas ex_defs = exA_def exB_def exLeaf_def exUser_def exTable_def exLookup_def exRepo_def
  exRepoPlain_def exRepoBusy_def exOffline_def

lemmas run_defs = expand_def startExpand_def resumeExpand_def assignAll_def hasProp_def
  arrayFromSet_def contentsDependencies_def componentSchema_def List.map_filter_def Let_def

lemma keys_setProp:
  "map fst (setProp m k v) = (if k \<in> set (map fst m) then map fst m else map fst m @ [k])"
  by (induction m) force+

lemma hasProp_setProp: "hasProp k (setProp m k' v) = (k = k' \<or> hasProp k m)"
  by (auto simp: hasProp_def keys_setProp simp del: set_map)

lemma runPool_idle: "pending st = [] \<Longrightarrow> runPool r f s st = Some (Inr (st, s))"
  by (cases s) simp_all

lemma startExpand_idle:
  "\<forall>d\<in>set (getModelDependencies model). hasProp (depKey d) (modelMap st)
     \<Longrightarrow> startExpand f model st = st"
  by (simp add: startExpand_def filter_empty_conv)

lemma expandLoop_append:
  "expandLoop r f s st (xs @ ys) =
     (case expandLoop r f s st xs of
        None \<Rightarrow> None
      | Some (Inl e) \<Rightarrow> Some (Inl e)
      | Some (Inr (st', s')) \<Rightarrow> expandLoop r f s' st' ys)"
  by (induction xs arbitrary: s st) (auto split: option.splits sum.splits)

section \<open>Invariants of the expansion\<close>

lemma mem_remove_nth:
  "t \<in> set xs \<Longrightarrow> i < length xs \<Longrightarrow> t = xs ! i \<or> t \<in> set (take i xs @ drop (Suc i) xs)"
  using id_take_nth_drop [of i xs] by (metis Un_iff set_ConsD set_append)

lemma mem_update_nth: "t \<in> set xs \<Longrightarrow> t = xs ! i \<or> t \<in> set (xs[i := y])"
  by (metis in_set_conv_nth length_list_update nth_list_update_neq)

lemma set_setProp: "(k', v') \<in> set (setProp m k v) \<Longrightarrow> (k', v') \<in> set m \<or> (k', v') = (k, v)"
  by (induction m) (auto split: if_splits)

lemma hasProp_Nil: "hasProp k [] = False"
  by (simp add: hasProp_def)

lemma hasProp_Cons: "hasProp k ((k', v) # m) = (k = k' \<or> hasProp k m)"
  by (auto simp: hasProp_def)

lemma nonempty_if_member: "x \<in> set xs \<Longrightarrow> xs \<noteq> []"
  by auto

lemma hasProp_assignAll: "hasProp k (assignAll m res) = (hasProp k m \<or> hasProp k res)"
proof -
  have "hasProp k (foldl (\<lambda>m (k, v). setProp m k v) m res) = (hasProp k m \<or> hasProp k res)"
  proof (induction res arbitrary: m)
    case Nil
    then show ?case by (simp add: hasProp_Nil)
  next
    case (Cons kv res)
    then show ?case
      by (cases kv) (auto simp: hasProp_setProp hasProp_Cons)
  qed
  then show ?thesis by (simp add: assignAll_def)
qed

lemma set_assignAll: "(k, v) \<in> set (assignAll m res) \<Longrightarrow> (k, v) \<in> set m \<or> (k, v) \<in> set res"
proof -
  have "(k, v) \<in> set (foldl (\<lambda>m (k, v). setProp m k v) m res) \<Longrightarrow> (k, v) \<in> set m \<or> (k, v) \<in> set res"
  proof (induction res arbitrary: m)
    case Nil
    then show ?case by simp
  next
    case (Cons kv res)
    then show ?case
      by (cases kv) (auto dest: set_setProp)
  qed
  then show "(k, v) \<in> set (assignAll m res) \<Longrightarrow> (k, v) \<in> set m \<or> (k, v) \<in> set res"
    by (simp add: assignAll_def)
qed

lemma modelMap_startExpand [simp]: "modelMap (startExpand f v st) = modelMap st"
  by (simp add: startExpand_def Let_def)

lemma pending_startExpand: "set (pending st) \<subseteq> set (pending (startExpand f v st))"
  by (auto simp: startExpand_def Let_def)

lemma covered_startExpand: "covered (startExpand f v st) v"
  unfolding covered_def
proof (intro allI impI)
  fix s assume s: "DStr s \<in> set (getModelDependencies v)"
  let ?todo = "filter (\<lambda>d. \<not> hasProp (depKey d) (modelMap st)) (getModelDependencies v)"
  show "hasProp s (modelMap (startExpand f v st))
          \<or> (\<exists>t\<in>set (pending (startExpand f v st)). DStr s \<in> set (fst t))"
  proof (cases "hasProp s (modelMap st)")
    case True
    then show ?thesis by simp
  next
    case False
    with s have todo: "DStr s \<in> set ?todo" by simp
    then have "?todo \<noteq> []" by (rule nonempty_if_member)
    with todo show ?thesis by (simp add: startExpand_def Let_def)
  qed
qed

lemma covered_mono:
  assumes "covered st v"
    and "\<And>k. hasProp k (modelMap st) \<Longrightarrow> hasProp k (modelMap st')"
    and "\<And>t s. t \<in> set (pending st) \<Longrightarrow> DStr s \<in> set (fst t)
           \<Longrightarrow> hasProp s (modelMap st') \<or> (\<exists>t'\<in>set (pending st'). DStr s \<in> set (fst t'))"
  shows "covered st' v"
  using assms unfolding covered_def by blast

lemma spawn_all:
  "modelMap (foldl (\<lambda>s v. startExpand f v s) st vs) = modelMap st
   \<and> set (pending st) \<subseteq> set (pending (foldl (\<lambda>s v. startExpand f v s) st vs))
   \<and> (\<forall>w. covered st w \<longrightarrow> covered (foldl (\<lambda>s v. startExpand f v s) st vs) w)
   \<and> (\<forall>v\<in>set vs. covered (foldl (\<lambda>s v. startExpand f v s) st vs) v)"
proof (induction vs arbitrary: st)
  case Nil
  then show ?case by simp
next
  case (Cons v vs)
  let ?st1 = "startExpand f v st"
  have keep: "covered ?st1 w" if "covered st w" for w
    using that
  proof (rule covered_mono)
    show "hasProp k (modelMap st) \<Longrightarrow> hasProp k (modelMap ?st1)" for k by simp
    show "t \<in> set (pending st) \<Longrightarrow> DStr s \<in> set (fst t)
           \<Longrightarrow> hasProp s (modelMap ?st1) \<or> (\<exists>t'\<in>set (pending ?st1). DStr s \<in> set (fst t'))" for t s
      using pending_startExpand [of st f v] by blast
  qed
  from Cons.IH [of ?st1] keep covered_startExpand [of f v st] pending_startExpand [of st f v]
  show ?case by auto
qed

lemma resume_covered:
  assumes faithful: "\<And>deps retried m. pending st ! i = (deps, retried)
                       \<Longrightarrow> r deps (if retried then Some False else f) = Inr m
                       \<Longrightarrow> \<forall>s. DStr s \<in> set deps \<longrightarrow> hasProp s m"
    and i: "i < length (pending st)"
    and res: "resumeExpand r f i st = Inr st'"
  shows "(\<forall>k. hasProp k (modelMap st) \<longrightarrow> hasProp k (modelMap st'))
       \<and> (\<forall>w. covered st w \<longrightarrow> covered st' w)
       \<and> (\<forall>(k, v)\<in>set (modelMap st'). (k, v) \<in> set (modelMap st) \<or> covered st' v)"
proof -
  obtain deps retried where task: "pending st ! i = (deps, retried)"
    by (cases "pending st ! i")
  show ?thesis
  proof (cases "r deps (if retried then Some False else f)")
    case (Inl e)
    with res task have st': "st' = st\<lparr>pending := (pending st)[i := (deps, True)],
                           calls := calls st @ [(deps, Some False)]\<rparr>"
      by (auto simp: resumeExpand_def split: if_splits)
    have keep: "covered st' w" if "covered st w" for w
      using that
    proof (rule covered_mono)
      show "hasProp k (modelMap st) \<Longrightarrow> hasProp k (modelMap st')" for k
        by (simp add: st')
      show "hasProp s (modelMap st') \<or> (\<exists>t'\<in>set (pending st'). DStr s \<in> set (fst t'))"
        if t: "t \<in> set (pending st)" and s: "DStr s \<in> set (fst t)" for t s
      proof -
        from mem_update_nth [OF t, of i "(deps, True)"]
        consider "t = pending st ! i" | "t \<in> set (pending st')"
          by (auto simp: st')
        then show ?thesis
        proof cases
          case 1
          with task s have "DStr s \<in> set deps" by simp
          moreover have "(deps, True) \<in> set (pending st')"
            using i by (simp add: st' set_update_memI)
          ultimately show ?thesis by force
        next
          case 2
          with s show ?thesis by blast
        qed
      qed
    qed
    then show ?thesis by (auto simp: st')
  next
    case (Inr resolved)
    let ?st1 = "st\<lparr>modelMap := assignAll (modelMap st) resolved,
                   pending := take i (pending st) @ drop (Suc i) (pending st)\<rparr>"
    from res task Inr have st': "st' = foldl (\<lambda>s v. startExpand f v s) ?st1 (map snd resolved)"
      by (simp add: resumeExpand_def)
    note spawn = spawn_all [of f ?st1 "map snd resolved", folded st']
    have got: "hasProp s resolved" if "DStr s \<in> set deps" for s
      using faithful [OF task Inr] that by blast
    have keys: "hasProp k (modelMap st')" if "hasProp k (modelMap st)" for k
      using spawn that by (simp add: hasProp_assignAll)
    have keep1: "covered ?st1 w" if "covered st w" for w
      using that
    proof (rule covered_mono)
      show "hasProp k (modelMap st) \<Longrightarrow> hasProp k (modelMap ?st1)" for k
        by (simp add: hasProp_assignAll)
      show "hasProp s (modelMap ?st1) \<or> (\<exists>t'\<in>set (pending ?st1). DStr s \<in> set (fst t'))"
        if t: "t \<in> set (pending st)" and s: "DStr s \<in> set (fst t)" for t s
      proof -
        from mem_remove_nth [OF t i]
        consider "t = pending st ! i" | "t \<in> set (pending ?st1)"
          by auto
        then show ?thesis
        proof cases
          case 1
          with task s have "DStr s \<in> set deps" by simp
          then show ?thesis using got by (simp add: hasProp_assignAll)
        next
          case 2
          with s show ?thesis by blast
        qed
      qed
    qed
    have keep: "covered st' w" if "covered st w" for w
      using keep1 [OF that] spawn by blast
    have new: "(k, v) \<in> set (modelMap st) \<or> covered st' v" if "(k, v) \<in> set (modelMap st')" for k v
    proof -
      from that spawn have "(k, v) \<in> set (assignAll (modelMap st) resolved)" by simp
      then consider "(k, v) \<in> set (modelMap st)" | "(k, v) \<in> set resolved"
        using set_assignAll by blast
      then show ?thesis
      proof cases
        case 1
        then show ?thesis by simp
      next
        case 2
        then have "v \<in> set (map snd resolved)" by force
        with spawn show ?thesis by blast
      qed
    qed
    from keys keep new show ?thesis by blast
  qed
qed

lemma runPool_invariant:
  assumes step: "\<And>i st st'. P st \<Longrightarrow> i < length (pending st) \<Longrightarrow> resumeExpand r f i st = Inr st' \<Longrightarrow> P st'"
    and "P st" and "runPool r f sched st = Some (Inr (st', sched'))"
  shows "P st' \<and> pending st' = []"
  using assms(2,3)
proof (induction sched arbitrary: st)
  case Nil
  then show ?case by (auto split: if_splits)
next
  case (Cons i sched)
  show ?case
  proof (cases "pending st = []")
    case True
    with Cons.prems show ?thesis by simp
  next
    case False
    then have lt: "i mod length (pending st) < length (pending st)" by simp
    from Cons.prems(2) False obtain st1
      where r: "resumeExpand r f (i mod length (pending st)) st = Inr st1"
        and run: "runPool r f sched st1 = Some (Inr (st', sched'))"
      by (auto split: sum.splits)
    from step [OF Cons.prems(1) lt r] have "P st1" .
    from Cons.IH [OF this run] show ?thesis .
  qed
qed

lemma runPool_failure:
  assumes step: "\<And>i st st'. P st \<Longrightarrow> i < length (pending st) \<Longrightarrow> resumeExpand r f i st = Inr st' \<Longrightarrow> P st'"
    and "P st" and "runPool r f sched st = Some (Inl e)"
  shows "\<exists>st0 i. P st0 \<and> i < length (pending st0) \<and> resumeExpand r f i st0 = Inl e"
  using assms(2,3)
proof (induction sched arbitrary: st)
  case Nil
  then show ?case by (auto split: if_splits)
next
  case (Cons i sched)
  show ?case
  proof (cases "pending st = []")
    case True
    with Cons.prems show ?thesis by simp
  next
    case False
    then have lt: "i mod length (pending st) < length (pending st)" by simp
    show ?thesis
    proof (cases "resumeExpand r f (i mod length (pending st)) st")
      case (Inl e')
      with Cons.prems(2) False have "e' = e" by simp
      with Inl Cons.prems(1) lt show ?thesis by blast
    next
      case (Inr st1)
      with Cons.prems(2) False have run: "runPool r f sched st1 = Some (Inl e)" by simp
      from step [OF Cons.prems(1) lt Inr] have "P st1" .
      from Cons.IH [OF this run] show ?thesis .
    qed
  qed
qed

lemma expandLoop_invariant:
  assumes step: "\<And>ms i st st'. P ms st \<Longrightarrow> i < length (pending st)
                   \<Longrightarrow> resumeExpand r f i st = Inr st' \<Longrightarrow> P ms st'"
    and seed: "\<And>ms st model k. P ms st \<Longrightarrow> pending st = [] \<Longrightarrow> at_id model = Some k
                   \<Longrightarrow> P (ms @ [model]) (startExpand f model (st\<lparr>modelMap := setProp (modelMap st) k model\<rparr>))"
    and "P ms st" and "pending st = []"
    and "expandLoop r f sched st models = Some (Inr (st', sched'))"
  shows "P (ms @ models) st' \<and> pending st' = []"
  using assms(3,4,5)
proof (induction models arbitrary: ms st sched)
  case Nil
  then show ?case by simp
next
  case (Cons model models)
  from Cons.prems(3) obtain k where k: "at_id model = Some k"
    by (cases "at_id model") auto
  let ?st0 = "startExpand f model (st\<lparr>modelMap := setProp (modelMap st) k model\<rparr>)"
  from Cons.prems(3) k obtain st1 s1
    where run: "runPool r f sched ?st0 = Some (Inr (st1, s1))"
      and loop: "expandLoop r f s1 st1 models = Some (Inr (st', sched'))"
    by (auto split: option.splits sum.splits)
  have "P (ms @ [model]) ?st0"
    using seed [OF Cons.prems(1,2) k] .
  with run have "P (ms @ [model]) st1 \<and> pending st1 = []"
    using runPool_invariant [of "P (ms @ [model])" r f ?st0 sched st1 s1] step by blast
  with Cons.IH [of "ms @ [model]" st1 s1] loop show ?case by simp
qed

lemma expandLoop_failure:
  assumes step: "\<And>ms i st st'. P ms st \<Longrightarrow> i < length (pending st)
                   \<Longrightarrow> resumeExpand r f i st = Inr st' \<Longrightarrow> P ms st'"
    and seed: "\<And>ms st model k. P ms st \<Longrightarrow> pending st = [] \<Longrightarrow> at_id model = Some k
                   \<Longrightarrow> P (ms @ [model]) (startExpand f model (st\<lparr>modelMap := setProp (modelMap st) k model\<rparr>))"
    and "P ms st" and "pending st = []"
    and "expandLoop r f sched st models = Some (Inl e)"
  shows "e = Error ''model [object Object] does not contain @id member''
       \<or> (\<exists>ms0 st0 i. P ms0 st0 \<and> i < length (pending st0) \<and> resumeExpand r f i st0 = Inl e)"
  using assms(3,4,5)
proof (induction models arbitrary: ms st sched)
  case Nil
  then show ?case by simp
next
  case (Cons model models)
  show ?case
  proof (cases "at_id model")
    case None
    with Cons.prems(3) show ?thesis by simp
  next
    case (Some k)
    let ?st0 = "startExpand f model (st\<lparr>modelMap := setProp (modelMap st) k model\<rparr>)"
    have P0: "P (ms @ [model]) ?st0"
      using seed [OF Cons.prems(1,2) Some] .
    from Cons.prems(3) Some consider
      (pool) "runPool r f sched ?st0 = Some (Inl e)"
      | (later) st1 s1 where "runPool r f sched ?st0 = Some (Inr (st1, s1))"
          and "expandLoop r f s1 st1 models = Some (Inl e)"
      by (auto split: option.splits sum.splits)
    then show ?thesis
    proof cases
      case pool
      with P0 show ?thesis
        using runPool_failure [of "P (ms @ [model])" r f ?st0 sched e] step by blast
    next
      case later
      with P0 have "P (ms @ [model]) st1 \<and> pending st1 = []"
        using runPool_invariant [of "P (ms @ [model])" r f ?st0 sched st1 s1] step by blast
      with Cons.IH [of "ms @ [model]" st1 s1] later show ?thesis by simp
    qed
  qed
qed



lemma closedInv_step:
  assumes faithful: "\<forall>deps flag m. r deps flag = Inr m \<longrightarrow> (\<forall>s. DStr s \<in> set deps \<longrightarrow> hasProp s m)"
    and "closedInv ms st" and "i < length (pending st)" and "resumeExpand r f i st = Inr st'"
  shows "closedInv ms st'"
proof -
  have "\<forall>s. DStr s \<in> set deps \<longrightarrow> hasProp s m"
    if "r deps (if retried then Some False else f) = Inr m" for deps retried m
    using faithful that by blast
  from resume_covered [OF this assms(3,4)] assms(2)
  show ?thesis unfolding closedInv_def by fastforce
qed

lemma closedInv_seed:
  assumes "closedInv ms st" and "at_id model = Some k"
  shows "closedInv (ms @ [model]) (startExpand f model (st\<lparr>modelMap := setProp (modelMap st) k model\<rparr>))"
proof -
  let ?st1 = "st\<lparr>modelMap := setProp (modelMap st) k model\<rparr>"
  let ?st2 = "startExpand f model ?st1"
  have keep: "covered ?st2 w" if "covered st w" for w
    using that
  proof (rule covered_mono)
    show "hasProp j (modelMap st) \<Longrightarrow> hasProp j (modelMap ?st2)" for j
      by (simp add: hasProp_setProp)
    show "t \<in> set (pending st) \<Longrightarrow> DStr s \<in> set (fst t)
           \<Longrightarrow> hasProp s (modelMap ?st2) \<or> (\<exists>t'\<in>set (pending ?st2). DStr s \<in> set (fst t'))" for t s
      using pending_startExpand [of ?st1 f model] by auto
  qed
  have new: "covered ?st2 model" by (rule covered_startExpand)
  have entries: "covered ?st2 v" if "(j, v) \<in> set (modelMap ?st2)" for j v
  proof -
    from that have "(j, v) \<in> set (setProp (modelMap st) k model)" by simp
    then consider "(j, v) \<in> set (modelMap st)" | "v = model"
      using set_setProp by fastforce
    then show ?thesis
    proof cases
      case 1
      then have "v \<in> snd ` set (modelMap st)" by force
      with assms(1) have "covered st v" by (simp add: closedInv_def)
      then show ?thesis by (rule keep)
    next
      case 2
      with new show ?thesis by simp
    qed
  qed
  show ?thesis
    unfolding closedInv_def
  proof (intro conjI ballI)
    fix w assume "w \<in> set (ms @ [model]) \<union> snd ` set (modelMap ?st2)"
    then consider "w \<in> set ms" | "w = model" | j where "(j, w) \<in> set (modelMap ?st2)"
      by auto
    then show "covered ?st2 w"
    proof cases
      case 1
      with assms(1) have "covered st w" by (simp add: closedInv_def)
      then show ?thesis by (rule keep)
    next
      case 2
      with new show ?thesis by simp
    next
      case 3
      then show ?thesis by (rule entries)
    qed
  next
    fix m' assume "m' \<in> set (ms @ [model])"
    then consider "m' \<in> set ms" | "m' = model" by auto
    then show "\<exists>j. at_id m' = Some j \<and> hasProp j (modelMap ?st2)"
    proof cases
      case 1
      with assms(1) obtain j where "at_id m' = Some j" "hasProp j (modelMap st)"
        by (auto simp: closedInv_def)
      then show ?thesis by (auto simp: hasProp_setProp)
    next
      case 2
      with assms(2) show ?thesis by (auto simp: hasProp_setProp)
    qed
  qed
qed

lemma isRestError_iff: "isRestError e = (\<exists>c. e = RestError c)"
  by (cases e) auto

lemma policyInv_modelMap [simp]: "policyInv r tfe (st\<lparr>modelMap := m\<rparr>) = policyInv r tfe st"
  by (simp add: policyInv_def)

lemma policyInv_startExpand: "policyInv r tfe st \<Longrightarrow> policyInv r tfe (startExpand tfe v st)"
  unfolding policyInv_def startExpand_def Let_def by (auto simp: recovered_def)

lemma policyInv_spawn:
  "policyInv r tfe st \<Longrightarrow> policyInv r tfe (foldl (\<lambda>s v. startExpand tfe v s) st vs)"
  by (induction vs arbitrary: st) (simp_all add: policyInv_startExpand)

lemma policyInv_step:
  assumes inv: "policyInv r tfe st" and i: "i < length (pending st)"
    and res: "resumeExpand r tfe i st = Inr st'"
  shows "policyInv r tfe st'"
proof -
  obtain deps retried where task: "pending st ! i = (deps, retried)"
    by (cases "pending st ! i")
  from inv have P: "\<And>t. t \<in> set (pending st) \<Longrightarrow> snd t \<Longrightarrow> \<exists>c. r (fst t) tfe = Inl (RestError c)"
    and C: "\<And>call. call \<in> set (calls st) \<Longrightarrow>
            recovered r call
            \<or> (snd call = tfe \<and> (fst call, False) \<in> set (pending st))
            \<or> ((fst call, True) \<in> set (pending st) \<and> (snd call = tfe \<or> snd call = Some False))"
    by (auto simp: policyInv_def)
  have here: "(deps, retried) \<in> set (pending st)"
    using task i by (metis nth_mem)
  show ?thesis
  proof (cases "r deps (if retried then Some False else tfe)")
    case (Inl e)
    with res task have first: "\<not> retried" and rest: "isRestError e"
      and st': "st' = st\<lparr>pending := (pending st)[i := (deps, True)],
                         calls := calls st @ [(deps, Some False)]\<rparr>"
      by (auto simp: resumeExpand_def split: if_splits)
    from Inl first rest obtain c where c: "r deps tfe = Inl (RestError c)"
      by (auto simp: isRestError_iff)
    have now: "(deps, True) \<in> set (pending st')"
      using i by (simp add: st' set_update_memI)
    have P': "\<exists>c. r (fst t) tfe = Inl (RestError c)" if "t \<in> set (pending st')" "snd t" for t
    proof -
      from that(1) consider "t = (deps, True)" | "t \<in> set (pending st)"
        using set_update_subset_insert [of "pending st" i "(deps, True)"] by (auto simp: st')
      then show ?thesis
      proof cases
        case 1
        with c show ?thesis by simp
      next
        case 2
        from P [OF 2 that(2)] show ?thesis .
      qed
    qed
    have C': "recovered r call
            \<or> (snd call = tfe \<and> (fst call, False) \<in> set (pending st'))
            \<or> ((fst call, True) \<in> set (pending st') \<and> (snd call = tfe \<or> snd call = Some False))"
      if "call \<in> set (calls st')" for call
    proof -
      from that consider "call = (deps, Some False)" | "call \<in> set (calls st)"
        by (auto simp: st')
      then show ?thesis
      proof cases
        case 1
        with now show ?thesis by simp
      next
        case 2
        from C [OF 2] consider "recovered r call"
          | "snd call = tfe" "(fst call, False) \<in> set (pending st)"
          | "(fst call, True) \<in> set (pending st)" "snd call = tfe \<or> snd call = Some False"
          by blast
        then show ?thesis
        proof cases
          case 1
          then show ?thesis by simp
        next
          case 2
          note waiting = 2
          from mem_update_nth [OF waiting(2), of i "(deps, True)"] task
          have "fst call = deps \<or> (fst call, False) \<in> set (pending st')"
            by (auto simp: st')
          with waiting(1) now show ?thesis by auto
        next
          case 3
          note retrying = 3
          from mem_update_nth [OF retrying(1), of i "(deps, True)"] task first
          have "(fst call, True) \<in> set (pending st')"
            by (auto simp: st')
          with retrying(2) show ?thesis by simp
        qed
      qed
    qed
    from P' C' show ?thesis unfolding policyInv_def by blast
  next
    case (Inr resolved)
    let ?st1 = "st\<lparr>modelMap := assignAll (modelMap st) resolved,
                   pending := take i (pending st) @ drop (Suc i) (pending st)\<rparr>"
    from res task Inr have st': "st' = foldl (\<lambda>s v. startExpand tfe v s) ?st1 (map snd resolved)"
      by (simp add: resumeExpand_def)
    have sub: "set (pending ?st1) \<subseteq> set (pending st)"
      using set_take_subset [of i "pending st"] set_drop_subset [of "Suc i" "pending st"] by auto
    have P1: "\<exists>c. r (fst t) tfe = Inl (RestError c)" if "t \<in> set (pending ?st1)" "snd t" for t
      using that sub P by blast
    have C1: "recovered r call
            \<or> (snd call = tfe \<and> (fst call, False) \<in> set (pending ?st1))
            \<or> ((fst call, True) \<in> set (pending ?st1) \<and> (snd call = tfe \<or> snd call = Some False))"
      if "call \<in> set (calls ?st1)" for call
    proof -
      from that have "call \<in> set (calls st)" by simp
      from C [OF this] consider "recovered r call"
        | "snd call = tfe" "(fst call, False) \<in> set (pending st)"
        | "(fst call, True) \<in> set (pending st)" "snd call = tfe \<or> snd call = Some False"
        by blast
      then show ?thesis
      proof cases
        case 1
        then show ?thesis by simp
      next
        case 2
        note waiting = 2
        from mem_remove_nth [OF waiting(2) i] task
        consider "fst call = deps" "\<not> retried" | "(fst call, False) \<in> set (pending ?st1)"
          by auto
        then show ?thesis
        proof cases
          case 1
          with Inr waiting(1) have "recovered r call" by (auto simp: recovered_def)
          then show ?thesis by simp
        next
          case 2
          with waiting(1) show ?thesis by simp
        qed
      next
        case 3
        note retrying = 3
        from mem_remove_nth [OF retrying(1) i] task
        consider "fst call = deps" "retried" | "(fst call, True) \<in> set (pending ?st1)"
          by auto
        then show ?thesis
        proof cases
          case 1
          with Inr have ok: "r (fst call) (Some False) = Inr resolved" by simp
          from P [OF here] 1 obtain c where "r (fst call) tfe = Inl (RestError c)" by auto
          with ok retrying(2) have "recovered r call" by (auto simp: recovered_def)
          then show ?thesis by simp
        next
          case 2
          with retrying(2) show ?thesis by simp
        qed
      qed
    qed
    from P1 C1 have "policyInv r tfe ?st1" unfolding policyInv_def by blast
    then show ?thesis unfolding st' by (rule policyInv_spawn)
  qed
qed

lemma policyInv_failure:
  assumes inv: "policyInv r tfe st" and i: "i < length (pending st)"
    and res: "resumeExpand r tfe i st = Inl e"
  shows "\<exists>deps. (r deps tfe = Inl e \<and> \<not> isRestError e)
               \<or> (\<exists>c. r deps tfe = Inl (RestError c) \<and> r deps (Some False) = Inl e)"
proof -
  obtain deps retried where task: "pending st ! i = (deps, retried)"
    by (cases "pending st ! i")
  have here: "(deps, retried) \<in> set (pending st)"
    using task i by (metis nth_mem)
  from res task have e: "r deps (if retried then Some False else tfe) = Inl e"
    and not: "retried \<or> \<not> isRestError e"
    by (auto simp: resumeExpand_def split: sum.splits if_splits)
  show ?thesis
  proof (cases retried)
    case True
    with inv here obtain c where "r deps tfe = Inl (RestError c)"
      by (auto simp: policyInv_def)
    with e True show ?thesis by auto
  next
    case False
    with e not show ?thesis by auto
  qed
qed

lemma expandLoop_seeded:
  assumes "pending st = []"
    and "\<forall>i<length models. \<exists>k. at_id (models ! i) = Some k \<and>
           (\<forall>d\<in>set (getModelDependencies (models ! i)).
              hasProp (depKey d) (modelMap st) \<or> (\<exists>j\<le>i. at_id (models ! j) = Some (depKey d)))"
  shows "expandLoop r tfe s st models =
           Some (Inr (st\<lparr>modelMap :=
                       foldl (\<lambda>m model. case at_id model of None \<Rightarrow> m | Some k \<Rightarrow> setProp m k model)
                         (modelMap st) models\<rparr>, s))"
  using assms
proof (induction models arbitrary: st)
  case Nil
  then show ?case by simp
next
  case (Cons model models)
  from Cons.prems(2) obtain k where k: "at_id model = Some k"
    and deps0: "\<forall>d\<in>set (getModelDependencies model).
              hasProp (depKey d) (modelMap st) \<or> depKey d = k"
    by fastforce
  let ?st1 = "st\<lparr>modelMap := setProp (modelMap st) k model\<rparr>"
  have idle: "startExpand tfe model ?st1 = ?st1"
    using deps0 by (intro startExpand_idle) (auto simp: hasProp_setProp)
  have p1: "pending ?st1 = []" using Cons.prems(1) by simp
  have rest: "\<forall>i<length models. \<exists>k'. at_id (models ! i) = Some k' \<and>
           (\<forall>d\<in>set (getModelDependencies (models ! i)).
              hasProp (depKey d) (modelMap ?st1) \<or> (\<exists>j\<le>i. at_id (models ! j) = Some (depKey d)))"
  proof (intro allI impI)
    fix i assume i: "i < length models"
    with Cons.prems(2) have "\<exists>k'. at_id ((model # models) ! Suc i) = Some k' \<and>
           (\<forall>d\<in>set (getModelDependencies ((model # models) ! Suc i)).
              hasProp (depKey d) (modelMap st) \<or> (\<exists>j\<le>Suc i. at_id ((model # models) ! j) = Some (depKey d)))"
      by (metis Suc_less_eq length_Cons)
    then obtain k' where k': "at_id (models ! i) = Some k'"
      and d: "\<forall>d\<in>set (getModelDependencies (models ! i)).
              hasProp (depKey d) (modelMap st) \<or> (\<exists>j\<le>Suc i. at_id ((model # models) ! j) = Some (depKey d))"
      by auto
    have "\<forall>d\<in>set (getModelDependencies (models ! i)).
              hasProp (depKey d) (modelMap ?st1) \<or> (\<exists>j\<le>i. at_id (models ! j) = Some (depKey d))"
    proof
      fix d assume "d \<in> set (getModelDependencies (models ! i))"
      with d consider "hasProp (depKey d) (modelMap st)"
        | j where "j \<le> Suc i" "at_id ((model # models) ! j) = Some (depKey d)" by blast
      then show "hasProp (depKey d) (modelMap ?st1) \<or> (\<exists>j\<le>i. at_id (models ! j) = Some (depKey d))"
      proof cases
        case 1
        then show ?thesis by (simp add: hasProp_setProp)
      next
        case (2 j)
        then show ?thesis using k
          by (cases j) (auto simp: hasProp_setProp)
      qed
    qed
    with k' show "\<exists>k'. at_id (models ! i) = Some k' \<and>
           (\<forall>d\<in>set (getModelDependencies (models ! i)).
              hasProp (depKey d) (modelMap ?st1) \<or> (\<exists>j\<le>i. at_id (models ! j) = Some (depKey d)))"
      by blast
  qed
  show ?case
    using Cons.IH[OF p1 rest] k idle p1 by (simp add: runPool_idle)
qed

section \<open>Termination of the expansion\<close>

text \<open>
  Over a finite repository that holds the dependencies of its documents, and with a
  resolver that answers every batch at its first attempt or at the retry, every
  completion makes the weight of the state smaller: a retry halves the weight of its
  call, and an answered call is replaced by at most \<open>n\<close> calls of smaller height.
\<close>

lemmas graph_defs = exHub_def exRelay_def exGraph_def exGraphRepo_def

lemma pending_startExpand_eq: "pending (startExpand f v st) = pending st @ newTasks st v"
  by (simp add: startExpand_def newTasks_def Let_def)

lemma pending_spawn:
  "pending (foldl (\<lambda>s v. startExpand f v s) st vs) = pending st @ concat (map (newTasks st) vs)"
proof (induction vs arbitrary: st)
  case Nil
  then show ?case by simp
next
  case (Cons v vs)
  have same: "newTasks (startExpand f v st) = newTasks st"
    by (rule ext) (simp add: newTasks_def)
  show ?case
    by (simp add: Cons.IH pending_startExpand_eq same)
qed

lemma modelMap_spawn: "modelMap (foldl (\<lambda>s v. startExpand f v s) st vs) = modelMap st"
  by (induction vs arbitrary: st) simp_all

lemma distinct_setProp: "distinct (map fst m) \<Longrightarrow> distinct (map fst (setProp m k v))"
  by (simp add: keys_setProp)

lemma distinct_assignAll: "distinct (map fst m) \<Longrightarrow> distinct (map fst (assignAll m res))"
proof -
  have "distinct (map fst m) \<Longrightarrow> distinct (map fst (foldl (\<lambda>m (k, v). setProp m k v) m res))"
  proof (induction res arbitrary: m)
    case Nil
    then show ?case by simp
  next
    case (Cons kv res)
    then show ?case by (cases kv) (simp add: distinct_setProp)
  qed
  then show "distinct (map fst m) \<Longrightarrow> distinct (map fst (assignAll m res))"
    by (simp add: assignAll_def)
qed

lemma hasProp_iff: "hasProp k m = (k \<in> fst ` set m)"
  by (simp add: hasProp_def)

lemma height_mono:
  assumes "fst ` set (modelMap st) \<subseteq> fst ` set (modelMap st')"
  shows "height table st' deps \<le> height table st deps"
  unfolding height_def using assms by (intro card_mono) auto

lemma height_le: "height table st deps \<le> length table"
proof -
  have "height table st deps \<le> card (fst ` set table)"
    unfolding height_def by (intro card_mono) auto
  also have "\<dots> \<le> card (set table)" by (rule card_image_le) simp
  also have "\<dots> \<le> length table" by (rule card_length)
  finally show ?thesis .
qed

lemma height_child:
  assumes sub: "fst ` set (modelMap st) \<union> depKey ` set deps \<subseteq> fst ` set (modelMap st')"
    and d: "d \<in> set todo" and inU: "hasProp (depKey d) table"
    and new: "\<not> hasProp (depKey d) (modelMap st')"
  shows "height table st' todo < height table st deps"
proof -
  let ?U = "fst ` set table"
  have "?U - (fst ` set (modelMap st') \<union> depKey ` set todo) \<subset> ?U - fst ` set (modelMap st')"
    using d inU new by (auto simp: hasProp_iff)
  then have "height table st' todo < card (?U - fst ` set (modelMap st'))"
    unfolding height_def by (intro psubset_card_mono) auto
  also have "\<dots> \<le> height table st deps"
    unfolding height_def using sub by (intro card_mono) auto
  finally show ?thesis .
qed

lemma sum_list_bound:
  "(\<And>x. x \<in> set xs \<Longrightarrow> f x \<le> (c::nat)) \<Longrightarrow> sum_list (map f xs) \<le> length xs * c"
  by (induction xs) (auto simp: add_le_mono)

lemma sum_list_remove_nth:
  "i < length xs \<Longrightarrow> sum_list (map f xs) = sum_list (map f (take i xs @ drop (Suc i) xs)) + (f (xs ! i) :: nat)"
proof -
  assume "i < length xs"
  then have "xs = take i xs @ xs ! i # drop (Suc i) xs" by (rule id_take_nth_drop)
  then have "sum_list (map f xs) = sum_list (map f (take i xs @ xs ! i # drop (Suc i) xs))" by simp
  then show ?thesis by simp
qed

lemma length_resolved:
  assumes "distinct (map fst m)" and "set m \<subseteq> set table"
  shows "length m \<le> length table"
proof -
  have "length m = card (set (map fst m))"
    using assms(1) by (metis distinct_card length_map)
  also have "\<dots> \<le> card (fst ` set table)"
    using assms(2) by (intro card_mono) auto
  also have "\<dots> \<le> card (set table)" by (rule card_image_le) simp
  also have "\<dots> \<le> length table" by (rule card_length)
  finally show ?thesis .
qed

lemma sum_list_update_nth:
  "i < length xs \<Longrightarrow> sum_list (map f (xs[i := y])) + (f (xs ! i) :: nat) = sum_list (map f xs) + f y"
proof (induction xs arbitrary: i)
  case Nil
  then show ?case by simp
next
  case (Cons x xs)
  then show ?case by (cases i) (simp_all add: add.assoc add.left_commute)
qed

lemma taskWeight_pos: "0 < taskWeight table st t"
  by (simp add: taskWeight_def)

lemma weight_pos: "pending st \<noteq> [] \<Longrightarrow> 0 < weight table st"
  unfolding weight_def using taskWeight_pos [of table st "hd (pending st)"]
  by (cases "pending st") simp_all

lemma taskWeight_le: "taskWeight table st t \<le> 2 * (2 * Suc (length table)) ^ length table"
proof -
  define Y where "Y = 2 * Suc (length table)"
  have "1 \<le> Y" by (simp add: Y_def)
  then have "Y ^ height table st (fst t) \<le> Y ^ length table"
    using height_le [of table st "fst t"] by (intro power_increasing)
  then have "(if snd t then 1 else 2) * Y ^ height table st (fst t) \<le> 2 * Y ^ length table"
    by (cases "snd t") simp_all
  then show ?thesis unfolding taskWeight_def Y_def .
qed

lemma length_concat_newTasks: "length (concat (map (newTasks st) vs)) \<le> length vs"
  by (induction vs) (auto simp: newTasks_def Let_def)

lemma newTasks_member:
  assumes "t \<in> set (newTasks st v)"
  shows "\<exists>todo d. t = (todo, False) \<and> set todo \<subseteq> set (getModelDependencies v)
           \<and> d \<in> set todo \<and> \<not> hasProp (depKey d) (modelMap st)"
proof -
  let ?todo = "filter (\<lambda>d. \<not> hasProp (depKey d) (modelMap st)) (getModelDependencies v)"
  from assms have ne: "?todo \<noteq> []" and t: "t = (?todo, False)"
    by (auto simp: newTasks_def Let_def split: if_splits)
  from ne obtain d where "d \<in> set ?todo" by (cases ?todo) auto
  then have "d \<in> set ?todo \<and> \<not> hasProp (depKey d) (modelMap st)" by simp
  with t show ?thesis by (intro exI [of _ ?todo] exI [of _ d]) auto
qed

lemma closedInv_step_local:
  assumes faithful: "\<And>deps retried m. pending st ! i = (deps, retried)
                       \<Longrightarrow> r deps (if retried then Some False else f) = Inr m
                       \<Longrightarrow> \<forall>s. DStr s \<in> set deps \<longrightarrow> hasProp s m"
    and "closedInv ms st" and "i < length (pending st)" and "resumeExpand r f i st = Inr st'"
  shows "closedInv ms st'"
  using resume_covered [OF faithful assms(3,4)] assms(2)
  unfolding closedInv_def by fastforce

lemma termInv_success:
  assumes G1: "\<forall>(k, v)\<in>set table. \<forall>d\<in>set (getModelDependencies v). hasProp (depKey d) table"
    and inv: "termInv resolver table ms st" and i: "i < length (pending st)"
    and task: "pending st ! i = (deps, retried)"
    and r: "resolver deps (if retried then Some False else tfe) = Inr m"
    and good: "answer table deps m"
  shows "\<exists>st'. resumeExpand resolver tfe i st = Inr st' \<and> termInv resolver table ms st'
               \<and> weight table st' < weight table st"
proof -
  define X where "X = Suc (length table)"
  define Y where "Y = 2 * X"
  have X: "length table < X" and Y: "1 \<le> Y" by (simp_all add: X_def Y_def)
  have tw: "taskWeight table s t = (if snd t then 1 else 2) * Y ^ height table s (fst t)" for s t
    by (simp add: taskWeight_def Y_def X_def)
  from inv have closed0: "closedInv ms st" and distinct0: "distinct (map fst (modelMap st))"
    and origin0: "\<And>k v. (k, v) \<in> set (modelMap st) \<Longrightarrow> (k, v) \<in> set table \<or> (v \<in> set ms \<and> at_id v = Some k)"
    and tasks0: "\<And>t. t \<in> set (pending st) \<Longrightarrow> (\<forall>d\<in>set (fst t). hasProp (depKey d) table)
                   \<and> (snd t \<longrightarrow> (\<exists>m. resolver (fst t) (Some False) = Inr m \<and> answer table (fst t) m))"
    unfolding termInv_def by blast+
  from good have sub: "set m \<subseteq> set table" and dist: "distinct (map fst m)"
    and got: "\<forall>d\<in>set deps. hasProp (depKey d) m"
    by (simp_all add: answer_def)
  define rest where "rest = take i (pending st) @ drop (Suc i) (pending st)"
  define st1 where "st1 = st\<lparr>modelMap := assignAll (modelMap st) m, pending := rest\<rparr>"
  define st' where "st' = foldl (\<lambda>s v. startExpand tfe v s) st1 (map snd m)"
  define new where "new = concat (map (newTasks st1) (map snd m))"
  have res: "resumeExpand resolver tfe i st = Inr st'"
    using task r by (simp add: resumeExpand_def st'_def st1_def rest_def)
  have map1: "modelMap st1 = assignAll (modelMap st) m"
    by (simp add: st1_def)
  have map': "modelMap st' = assignAll (modelMap st) m"
    by (simp add: st'_def modelMap_spawn map1)
  have pend': "pending st' = rest @ new"
    by (simp add: st'_def pending_spawn new_def) (simp add: st1_def)
  have grow: "hasProp k (modelMap st')" if "hasProp k (modelMap st) \<or> hasProp k m" for k
    using that by (simp add: map' hasProp_assignAll)
  have keys: "fst ` set (modelMap st) \<union> depKey ` set deps \<subseteq> fst ` set (modelMap st')"
  proof
    fix k assume "k \<in> fst ` set (modelMap st) \<union> depKey ` set deps"
    then have "hasProp k (modelMap st) \<or> hasProp k m"
      using got by (auto simp: hasProp_iff)
    then show "k \<in> fst ` set (modelMap st')"
      using grow by (simp add: hasProp_iff)
  qed
  have restsub: "set rest \<subseteq> set (pending st)"
    unfolding rest_def
    using set_take_subset [of i "pending st"] set_drop_subset [of "Suc i" "pending st"] by auto
  have newtask: "\<exists>k v todo d. (k, v) \<in> set m \<and> t = (todo, False)
                  \<and> set todo \<subseteq> set (getModelDependencies v)
                  \<and> d \<in> set todo \<and> \<not> hasProp (depKey d) (modelMap st')"
    if "t \<in> set new" for t
  proof -
    from that obtain kv where kv: "kv \<in> set m" and t: "t \<in> set (newTasks st1 (snd kv))"
      unfolding new_def by auto
    from newTasks_member [OF t] obtain todo d where td: "t = (todo, False)"
      "set todo \<subseteq> set (getModelDependencies (snd kv))" "d \<in> set todo"
      and absent: "\<not> hasProp (depKey d) (modelMap st1)" by blast
    from absent have "\<not> hasProp (depKey d) (modelMap st')" by (simp add: map' map1)
    moreover from kv have "(fst kv, snd kv) \<in> set m" by simp
    ultimately show ?thesis using td by blast
  qed
  \<comment> \<open>the invariant\<close>
  have closed: "closedInv ms st'"
  proof (rule closedInv_step_local [OF _ closed0 i res])
    fix deps' retried' m'
    assume "pending st ! i = (deps', retried')"
      and "resolver deps' (if retried' then Some False else tfe) = Inr m'"
    with task r have "deps' = deps" "m' = m" by simp_all
    with got show "\<forall>s. DStr s \<in> set deps' \<longrightarrow> hasProp s m'" by force
  qed
  have distinct': "distinct (map fst (modelMap st'))"
    using distinct0 by (simp add: map' distinct_assignAll)
  have origin: "(k, v) \<in> set table \<or> (v \<in> set ms \<and> at_id v = Some k)"
    if "(k, v) \<in> set (modelMap st')" for k v
  proof -
    from that have "(k, v) \<in> set (modelMap st) \<or> (k, v) \<in> set m"
      using set_assignAll by (simp add: map')
    with origin0 sub show ?thesis by blast
  qed
  have tasks: "(\<forall>d\<in>set (fst t). hasProp (depKey d) table)
               \<and> (snd t \<longrightarrow> (\<exists>m. resolver (fst t) (Some False) = Inr m \<and> answer table (fst t) m))"
    if "t \<in> set (pending st')" for t
  proof -
    from that consider "t \<in> set (pending st)" | "t \<in> set new"
      using restsub by (auto simp: pend')
    then show ?thesis
    proof cases
      case 1
      then show ?thesis by (rule tasks0)
    next
      case 2
      from newtask [OF 2] obtain k v todo where kv: "(k, v) \<in> set m" and t: "t = (todo, False)"
        and todo: "set todo \<subseteq> set (getModelDependencies v)" by blast
      from kv sub have "(k, v) \<in> set table" by blast
      with G1 todo have "\<forall>d\<in>set todo. hasProp (depKey d) table" by blast
      with t show ?thesis by simp
    qed
  qed
  have inv': "termInv resolver table ms st'"
    unfolding termInv_def using closed distinct' origin tasks by blast
  \<comment> \<open>the measure\<close>
  define H0 where "H0 = height table st deps"
  have "taskWeight table st (pending st ! i) = (if retried then 1 else 2) * Y ^ H0"
    by (simp add: tw task H0_def)
  then have "Y ^ H0 \<le> taskWeight table st (pending st ! i)"
    by (cases retried) simp_all
  moreover have "weight table st
                  = sum_list (map (taskWeight table st) rest) + taskWeight table st (pending st ! i)"
    unfolding weight_def rest_def using sum_list_remove_nth [OF i] by blast
  ultimately have old: "sum_list (map (taskWeight table st) rest) + Y ^ H0 \<le> weight table st"
    by simp
  have new: "weight table st'
              = sum_list (map (taskWeight table st') rest) + sum_list (map (taskWeight table st') new)"
    unfolding weight_def by (simp add: pend')
  have mono: "fst ` set (modelMap st) \<subseteq> fst ` set (modelMap st')"
    using keys by blast
  have part1: "sum_list (map (taskWeight table st') rest) \<le> sum_list (map (taskWeight table st) rest)"
  proof (rule sum_list_mono)
    fix t assume "t \<in> set rest"
    have "height table st' (fst t) \<le> height table st (fst t)"
      using mono by (rule height_mono)
    with Y have "Y ^ height table st' (fst t) \<le> Y ^ height table st (fst t)"
      by (intro power_increasing)
    then show "taskWeight table st' t \<le> taskWeight table st t"
      by (simp add: tw)
  qed
  have part2: "sum_list (map (taskWeight table st') new) < Y ^ H0"
  proof (cases "new = []")
    case True
    with Y show ?thesis by simp
  next
    case False
    have small: "height table st' (fst t) < H0 \<and> \<not> snd t" if "t \<in> set new" for t
    proof -
      from newtask [OF that] obtain k v todo d where kv: "(k, v) \<in> set m" and t: "t = (todo, False)"
        and todo: "set todo \<subseteq> set (getModelDependencies v)"
        and d: "d \<in> set todo" "\<not> hasProp (depKey d) (modelMap st')" by blast
      from kv sub have "(k, v) \<in> set table" by blast
      with G1 todo d(1) have "hasProp (depKey d) table" by blast
      from height_child [OF keys d(1) this d(2)] t show ?thesis by (simp add: H0_def)
    qed
    from False obtain t0 where "t0 \<in> set new" by (cases new) auto
    from small [OF this] have pos: "0 < H0" by simp
    have "taskWeight table st' t \<le> 2 * Y ^ (H0 - 1)" if "t \<in> set new" for t
    proof -
      from small [OF that] have le: "height table st' (fst t) \<le> H0 - 1" and first: "\<not> snd t"
        by auto
      from le Y have "Y ^ height table st' (fst t) \<le> Y ^ (H0 - 1)"
        by (intro power_increasing)
      with first show ?thesis by (simp add: tw)
    qed
    then have "sum_list (map (taskWeight table st') new) \<le> length new * (2 * Y ^ (H0 - 1))"
      by (rule sum_list_bound)
    also have "\<dots> \<le> length table * (2 * Y ^ (H0 - 1))"
    proof (rule mult_le_mono1)
      have "length new \<le> length (map snd m)"
        unfolding new_def by (rule length_concat_newTasks)
      with length_resolved [OF dist sub] show "length new \<le> length table" by simp
    qed
    also have "\<dots> < X * (2 * Y ^ (H0 - 1))"
      using X Y by simp
    also have "\<dots> = Y * Y ^ (H0 - 1)"
      by (simp add: Y_def)
    also have "\<dots> = Y ^ H0"
      using pos by (metis Suc_pred' power_Suc)
    finally show ?thesis .
  qed
  from old new part1 part2 have "weight table st' < weight table st" by linarith
  with res inv' show ?thesis by blast
qed

lemma termInv_retry:
  assumes inv: "termInv resolver table ms st" and i: "i < length (pending st)"
    and task: "pending st ! i = (deps, False)"
    and r: "resolver deps tfe = Inl (RestError c)"
    and r': "resolver deps (Some False) = Inr m" and good: "answer table deps m"
  shows "\<exists>st'. resumeExpand resolver tfe i st = Inr st' \<and> termInv resolver table ms st'
               \<and> weight table st' < weight table st"
proof -
  define st' where "st' = st\<lparr>pending := (pending st)[i := (deps, True)],
                              calls := calls st @ [(deps, Some False)]\<rparr>"
  have res: "resumeExpand resolver tfe i st = Inr st'"
    using task r by (simp add: resumeExpand_def st'_def)
  have map': "modelMap st' = modelMap st" and pend': "pending st' = (pending st)[i := (deps, True)]"
    by (simp_all add: st'_def)
  from inv have closed0: "closedInv ms st"
    and tasks0: "\<And>t. t \<in> set (pending st) \<Longrightarrow> (\<forall>d\<in>set (fst t). hasProp (depKey d) table)
                   \<and> (snd t \<longrightarrow> (\<exists>m. resolver (fst t) (Some False) = Inr m \<and> answer table (fst t) m))"
    unfolding termInv_def by blast+
  have here: "(deps, False) \<in> set (pending st)"
    using task i by (metis nth_mem)
  have closed: "closedInv ms st'"
  proof (rule closedInv_step_local [OF _ closed0 i res])
    fix deps' retried' m'
    assume "pending st ! i = (deps', retried')"
      and "resolver deps' (if retried' then Some False else tfe) = Inr m'"
    with task r show "\<forall>s. DStr s \<in> set deps' \<longrightarrow> hasProp s m'" by simp
  qed
  have tasks: "(\<forall>d\<in>set (fst t). hasProp (depKey d) table)
               \<and> (snd t \<longrightarrow> (\<exists>m. resolver (fst t) (Some False) = Inr m \<and> answer table (fst t) m))"
    if "t \<in> set (pending st')" for t
  proof -
    from that have "t \<in> set (pending st) \<or> t = (deps, True)"
      using set_update_subset_insert [of "pending st" i "(deps, True)"] by (auto simp: pend')
    then show ?thesis
    proof
      assume "t \<in> set (pending st)"
      then show ?thesis by (rule tasks0)
    next
      assume t: "t = (deps, True)"
      from tasks0 [OF here] have "\<forall>d\<in>set deps. hasProp (depKey d) table" by simp
      with t r' good show ?thesis by simp
    qed
  qed
  have inv': "termInv resolver table ms st'"
    using inv closed tasks unfolding termInv_def map' by blast
  have same: "taskWeight table st' = taskWeight table st"
    by (rule ext) (simp add: taskWeight_def height_def map')
  have "taskWeight table st (deps, True) < taskWeight table st (deps, False)"
    by (simp add: taskWeight_def)
  moreover have "weight table st' + taskWeight table st (deps, False)
                  = weight table st + taskWeight table st (deps, True)"
    unfolding weight_def same pend' using sum_list_update_nth [OF i, of "taskWeight table st" "(deps, True)"] task
    by simp
  ultimately have "weight table st' < weight table st" by linarith
  with res inv' show ?thesis by blast
qed

lemma termInv_step:
  assumes G1: "\<forall>(k, v)\<in>set table. \<forall>d\<in>set (getModelDependencies v). hasProp (depKey d) table"
    and H: "\<forall>deps. (\<forall>d\<in>set deps. hasProp (depKey d) table) \<longrightarrow>
              (\<exists>m. resolver deps tfe = Inr m \<and> answer table deps m)
              \<or> (\<exists>c m. resolver deps tfe = Inl (RestError c)
                        \<and> resolver deps (Some False) = Inr m \<and> answer table deps m)"
    and inv: "termInv resolver table ms st" and i: "i < length (pending st)"
  shows "\<exists>st'. resumeExpand resolver tfe i st = Inr st' \<and> termInv resolver table ms st'
               \<and> weight table st' < weight table st"
proof -
  obtain deps retried where task: "pending st ! i = (deps, retried)"
    by (cases "pending st ! i")
  have here: "(deps, retried) \<in> set (pending st)"
    using task i by (metis nth_mem)
  with inv have known: "\<forall>d\<in>set deps. hasProp (depKey d) table"
    and again: "retried \<longrightarrow> (\<exists>m. resolver deps (Some False) = Inr m \<and> answer table deps m)"
    unfolding termInv_def by fastforce+
  show ?thesis
  proof (cases retried)
    case True
    with again obtain m where "resolver deps (if retried then Some False else tfe) = Inr m"
      and "answer table deps m" by auto
    with termInv_success [OF G1 inv i task] show ?thesis by blast
  next
    case False
    from H known consider m where "resolver deps tfe = Inr m" "answer table deps m"
      | c m where "resolver deps tfe = Inl (RestError c)" "resolver deps (Some False) = Inr m"
          "answer table deps m"
      by blast
    then show ?thesis
    proof cases
      case 1
      with False have "resolver deps (if retried then Some False else tfe) = Inr m" by simp
      with termInv_success [OF G1 inv i task] 1(2) show ?thesis by blast
    next
      case 2
      from task False have "pending st ! i = (deps, False)" by simp
      from termInv_retry [OF inv i this 2] show ?thesis .
    qed
  qed
qed

lemma runPool_terminates:
  assumes G1: "\<forall>(k, v)\<in>set table. \<forall>d\<in>set (getModelDependencies v). hasProp (depKey d) table"
    and H: "\<forall>deps. (\<forall>d\<in>set deps. hasProp (depKey d) table) \<longrightarrow>
              (\<exists>m. resolver deps tfe = Inr m \<and> answer table deps m)
              \<or> (\<exists>c m. resolver deps tfe = Inl (RestError c)
                        \<and> resolver deps (Some False) = Inr m \<and> answer table deps m)"
    and "termInv resolver table ms st" and "weight table st \<le> length schedule"
  shows "\<exists>st' rest. runPool resolver tfe schedule st = Some (Inr (st', rest))
           \<and> termInv resolver table ms st' \<and> pending st' = []
           \<and> length schedule \<le> length rest + weight table st"
  using assms(3,4)
proof (induction schedule arbitrary: st)
  case Nil
  then have "pending st = []"
    using weight_pos [of st table] by (cases "pending st = []") simp_all
  with Nil show ?case by simp
next
  case (Cons i schedule)
  show ?case
  proof (cases "pending st = []")
    case True
    with Cons.prems show ?thesis by simp
  next
    case False
    then have lt: "i mod length (pending st) < length (pending st)" by simp
    from termInv_step [OF G1 H Cons.prems(1) lt] obtain st1
      where r: "resumeExpand resolver tfe (i mod length (pending st)) st = Inr st1"
        and inv1: "termInv resolver table ms st1"
        and less: "weight table st1 < weight table st" by blast
    from less Cons.prems(2) have "weight table st1 \<le> length schedule" by simp
    from Cons.IH [OF inv1 this] obtain st' rest
      where run: "runPool resolver tfe schedule st1 = Some (Inr (st', rest))"
        and inv': "termInv resolver table ms st'" and idle: "pending st' = []"
        and len: "length schedule \<le> length rest + weight table st1" by blast
    from False r run have "runPool resolver tfe (i # schedule) st = Some (Inr (st', rest))"
      by simp
    moreover from len less have "length (i # schedule) \<le> length rest + weight table st" by simp
    ultimately show ?thesis using inv' idle by blast
  qed
qed

lemma termInv_seed:
  assumes inv: "termInv resolver table ms st" and idle: "pending st = []"
    and k: "at_id model = Some k"
    and deps: "\<forall>d\<in>set (getModelDependencies model). hasProp (depKey d) table"
  shows "termInv resolver table (ms @ [model])
           (startExpand tfe model (st\<lparr>modelMap := setProp (modelMap st) k model\<rparr>))"
    and "weight table (startExpand tfe model (st\<lparr>modelMap := setProp (modelMap st) k model\<rparr>))
           \<le> 2 * (2 * Suc (length table)) ^ length table"
proof -
  define st1 where "st1 = st\<lparr>modelMap := setProp (modelMap st) k model\<rparr>"
  define st2 where "st2 = startExpand tfe model st1"
  have map2: "modelMap st2 = setProp (modelMap st) k model"
    by (simp add: st2_def st1_def)
  have pend2: "pending st2 = newTasks st1 model"
    by (simp add: st2_def pending_startExpand_eq) (simp add: st1_def idle)
  from inv have closed0: "closedInv ms st" and distinct0: "distinct (map fst (modelMap st))"
    and origin0: "\<And>k v. (k, v) \<in> set (modelMap st) \<Longrightarrow> (k, v) \<in> set table \<or> (v \<in> set ms \<and> at_id v = Some k)"
    unfolding termInv_def by blast+
  have closed: "closedInv (ms @ [model]) st2"
    unfolding st2_def st1_def using closed0 k by (rule closedInv_seed)
  have distinct': "distinct (map fst (modelMap st2))"
    using distinct0 by (simp add: map2 distinct_setProp)
  have origin: "(j, v) \<in> set table \<or> (v \<in> set (ms @ [model]) \<and> at_id v = Some j)"
    if "(j, v) \<in> set (modelMap st2)" for j v
  proof -
    from that have "(j, v) \<in> set (modelMap st) \<or> (j, v) = (k, model)"
      using set_setProp by (simp add: map2)
    with origin0 k show ?thesis by auto
  qed
  have tasks: "(\<forall>d\<in>set (fst t). hasProp (depKey d) table)
               \<and> (snd t \<longrightarrow> (\<exists>m. resolver (fst t) (Some False) = Inr m \<and> answer table (fst t) m))"
    if "t \<in> set (pending st2)" for t
  proof -
    from that have "t \<in> set (newTasks st1 model)" by (simp add: pend2)
    from newTasks_member [OF this] obtain todo where "t = (todo, False)"
      and "set todo \<subseteq> set (getModelDependencies model)" by blast
    with deps show ?thesis by auto
  qed
  show "termInv resolver table (ms @ [model])
          (startExpand tfe model (st\<lparr>modelMap := setProp (modelMap st) k model\<rparr>))"
    unfolding termInv_def st2_def [symmetric] st1_def [symmetric]
    using closed distinct' origin tasks by blast
  have "length (pending st2) \<le> 1"
    by (simp add: pend2 newTasks_def Let_def)
  moreover have "weight table st2 \<le> length (pending st2) * (2 * (2 * Suc (length table)) ^ length table)"
    unfolding weight_def by (rule sum_list_bound) (rule taskWeight_le)
  ultimately have "weight table st2 \<le> 1 * (2 * (2 * Suc (length table)) ^ length table)"
    by (meson le_trans mult_le_mono1)
  then show "weight table (startExpand tfe model (st\<lparr>modelMap := setProp (modelMap st) k model\<rparr>))
           \<le> 2 * (2 * Suc (length table)) ^ length table"
    unfolding st2_def st1_def by simp
qed

lemma expandLoop_terminates:
  assumes G1: "\<forall>(k, v)\<in>set table. \<forall>d\<in>set (getModelDependencies v). hasProp (depKey d) table"
    and H: "\<forall>deps. (\<forall>d\<in>set deps. hasProp (depKey d) table) \<longrightarrow>
              (\<exists>m. resolver deps tfe = Inr m \<and> answer table deps m)
              \<or> (\<exists>c m. resolver deps tfe = Inl (RestError c)
                        \<and> resolver deps (Some False) = Inr m \<and> answer table deps m)"
    and "\<forall>model\<in>set models. at_id model \<noteq> None
            \<and> (\<forall>d\<in>set (getModelDependencies model). hasProp (depKey d) table)"
    and "termInv resolver table ms st" and "pending st = []"
    and "length models * (2 * (2 * Suc (length table)) ^ length table) \<le> length schedule"
  shows "\<exists>st' rest. expandLoop resolver tfe schedule st models = Some (Inr (st', rest))
           \<and> termInv resolver table (ms @ models) st' \<and> pending st' = []"
  using assms(3-)
proof (induction models arbitrary: ms st schedule)
  case Nil
  then show ?case by simp
next
  case (Cons model models)
  define B where "B = 2 * (2 * Suc (length table)) ^ length table"
  from Cons.prems(1) obtain k where k: "at_id model = Some k"
    and deps: "\<forall>d\<in>set (getModelDependencies model). hasProp (depKey d) table"
    and others: "\<forall>model\<in>set models. at_id model \<noteq> None
            \<and> (\<forall>d\<in>set (getModelDependencies model). hasProp (depKey d) table)"
    by auto
  define st0 where "st0 = startExpand tfe model (st\<lparr>modelMap := setProp (modelMap st) k model\<rparr>)"
  have inv0: "termInv resolver table (ms @ [model]) st0" and w0: "weight table st0 \<le> B"
    unfolding st0_def B_def using termInv_seed [OF Cons.prems(2,3) k deps] by blast+
  from Cons.prems(4) have len: "B + length models * B \<le> length schedule"
    by (simp add: B_def)
  with w0 have "weight table st0 \<le> length schedule" by simp
  from runPool_terminates [OF G1 H inv0 this] obtain st1 rest
    where run: "runPool resolver tfe schedule st0 = Some (Inr (st1, rest))"
      and inv1: "termInv resolver table (ms @ [model]) st1" and idle1: "pending st1 = []"
      and used: "length schedule \<le> length rest + weight table st0" by blast
  from used w0 len have "length models * B \<le> length rest" by simp
  from Cons.IH [OF others inv1 idle1 this [unfolded B_def]] obtain st' rest'
    where loop: "expandLoop resolver tfe rest st1 models = Some (Inr (st', rest'))"
      and inv': "termInv resolver table ((ms @ [model]) @ models) st'" and idle': "pending st' = []"
    by blast
  from k run loop have "expandLoop resolver tfe schedule st (model # models) = Some (Inr (st', rest'))"
    by (simp add: st0_def)
  with inv' idle' show ?case by simp
qed

lemma startExpand_guard:
  "(startExpand tfe model st = st)
     = (\<forall>d\<in>set (getModelDependencies model). hasProp (depKey d) (modelMap st))"
proof
  assume same: "startExpand tfe model st = st"
  show "\<forall>d\<in>set (getModelDependencies model). hasProp (depKey d) (modelMap st)"
  proof (rule ccontr)
    assume "\<not> (\<forall>d\<in>set (getModelDependencies model). hasProp (depKey d) (modelMap st))"
    then have "filter (\<lambda>d. \<not> hasProp (depKey d) (modelMap st)) (getModelDependencies model) \<noteq> []"
      by (simp add: filter_empty_conv)
    then have "length (pending (startExpand tfe model st)) = Suc (length (pending st))"
      by (simp add: startExpand_def Let_def)
    with same show False by simp
  qed
next
  assume "\<forall>d\<in>set (getModelDependencies model). hasProp (depKey d) (modelMap st)"
  then show "startExpand tfe model st = st" by (rule startExpand_idle)
qed

lemma unrequested_startExpand: "unrequested a st \<Longrightarrow> unrequested a (startExpand f v st)"
  by (auto simp: unrequested_def startExpand_def Let_def)

lemma unrequested_spawn:
  "unrequested a st \<Longrightarrow> unrequested a (foldl (\<lambda>s v. startExpand f v s) st vs)"
  by (induction vs arbitrary: st) (simp_all add: unrequested_startExpand)

lemma unrequested_step:
  assumes inv: "unrequested a st" and i: "i < length (pending st)"
    and res: "resumeExpand r f i st = Inr st'"
  shows "unrequested a st'"
proof -
  obtain deps retried where task: "pending st ! i = (deps, retried)"
    by (cases "pending st ! i")
  have here: "(deps, retried) \<in> set (pending st)"
    using task i by (metis nth_mem)
  with inv have fresh: "a \<notin> depKey ` set deps"
    unfolding unrequested_def by fastforce
  show ?thesis
  proof (cases "r deps (if retried then Some False else f)")
    case (Inr m)
    define st1 where "st1 = st\<lparr>modelMap := assignAll (modelMap st) m,
                                pending := take i (pending st) @ drop (Suc i) (pending st)\<rparr>"
    have "set (pending st1) \<subseteq> set (pending st)"
      using set_take_subset [of i "pending st"] set_drop_subset [of "Suc i" "pending st"]
      by (auto simp: st1_def)
    moreover have "hasProp a (modelMap st1)" and "calls st1 = calls st"
      using inv by (simp_all add: st1_def unrequested_def hasProp_assignAll)
    ultimately have "unrequested a st1"
      using inv unfolding unrequested_def by auto
    then have "unrequested a (foldl (\<lambda>s v. startExpand f v s) st1 (map snd m))"
      by (rule unrequested_spawn)
    moreover from res task Inr have "st' = foldl (\<lambda>s v. startExpand f v s) st1 (map snd m)"
      by (simp add: resumeExpand_def st1_def)
    ultimately show ?thesis by simp
  next
    case (Inl e)
    with res task have st': "st' = st\<lparr>pending := (pending st)[i := (deps, True)],
                                       calls := calls st @ [(deps, Some False)]\<rparr>"
      by (simp add: resumeExpand_def split: if_splits)
    have "a \<notin> depKey ` set (fst t)" if "t \<in> set (pending st')" for t
    proof -
      from that have "t \<in> set (pending st) \<or> t = (deps, True)"
        using set_update_subset_insert [of "pending st" i "(deps, True)"] by (auto simp: st')
      with inv fresh show ?thesis
        unfolding unrequested_def by fastforce
    qed
    moreover have "a \<notin> depKey ` set (fst call)" if "call \<in> set (calls st')" for call
    proof -
      from that have "call \<in> set (calls st) \<or> call = (deps, Some False)"
        by (auto simp: st')
      with inv fresh show ?thesis
        unfolding unrequested_def by fastforce
    qed
    moreover have "hasProp a (modelMap st')"
      using inv by (simp add: st' unrequested_def)
    ultimately show ?thesis
      unfolding unrequested_def by blast
  qed
qed

lemma lookup_answer:
  assumes "\<forall>d\<in>set deps. hasProp (depKey d) table"
  shows "answer table deps
           (assignAll [] (List.map_filter (\<lambda>d. map_option (Pair (depKey d)) (map_of table (depKey d))) deps))"
proof -
  let ?f = "\<lambda>d. map_option (Pair (depKey d)) (map_of table (depKey d))"
  let ?m = "assignAll [] (List.map_filter ?f deps)"
  have "set ?m \<subseteq> set table"
  proof
    fix kv assume "kv \<in> set ?m"
    then have "(fst kv, snd kv) \<in> set ?m" by simp
    then have "(fst kv, snd kv) \<in> set (List.map_filter ?f deps)"
      using set_assignAll by fastforce
    then have "map_of table (fst kv) = Some (snd kv)"
      unfolding List.map_filter_def by auto
    then have "(fst kv, snd kv) \<in> set table" by (rule map_of_SomeD)
    then show "kv \<in> set table" by simp
  qed
  moreover have "distinct (map fst ?m)"
    by (rule distinct_assignAll) simp
  moreover have "hasProp (depKey d) ?m" if "d \<in> set deps" for d
  proof -
    from assms that have "map_of table (depKey d) \<noteq> None"
      by (simp add: hasProp_def map_of_eq_None_iff)
    then obtain v where "?f d = Some (depKey d, v)" by auto
    with that have "(depKey d, v) \<in> set (List.map_filter ?f deps)"
      unfolding List.map_filter_def by (force simp: image_iff)
    then have "hasProp (depKey d) (List.map_filter ?f deps)"
      by (force simp: hasProp_def)
    then show ?thesis by (simp add: hasProp_assignAll)
  qed
  ultimately show ?thesis by (simp add: answer_def)
qed

section \<open>Facts about addressing\<close>

lemmas path_defs = toPath_def validDtmi_def validSegment_def validVersion_def toLowerCase_def
  upperLetters_def lowerLetters_def digits_def

lemma toLowerCase_not_upper: "toLowerCase c \<notin> set upperLetters"
proof (cases "map_of (zip upperLetters lowerLetters) c")
  case None
  then have "c \<notin> fst ` set (zip upperLetters lowerLetters)"
    by (simp add: map_of_eq_None_iff)
  then have "c \<notin> set upperLetters"
    by (simp add: upperLetters_def lowerLetters_def)
  with None show ?thesis by (simp add: toLowerCase_def)
next
  case (Some l)
  then have "(c, l) \<in> set (zip upperLetters lowerLetters)" by (rule map_of_SomeD)
  then have "l \<in> set lowerLetters" by (rule set_zip_rightD)
  then have "l \<notin> set upperLetters" by (auto simp: upperLetters_def lowerLetters_def)
  with Some show ?thesis by (simp add: toLowerCase_def)
qed

lemma splitOn_not_Nil: "splitOn seps cur s \<noteq> []"
  by (induction s arbitrary: cur) auto

lemma set_joinWith: "set (joinWith sep xs) \<subseteq> set sep \<union> \<Union> (set ` set xs)"
  by (induction sep xs rule: joinWith.induct) auto

section \<open>The dependency scan\<close>

text \<open>
  C4. The claim: an inline object element of \<open>extends\<close> contributes its own dependencies
  as individual entries. The code pushes the array returned by the recursive call as one
  entry. For a model whose \<open>extends\<close> is \<open>[{ extends: "dtmi:com:example:Base;1" }]\<close> the
  computed list has a single entry, the nested array \<open>["dtmi:com:example:Base;1"]\<close>, and
  the string \<open>"dtmi:com:example:Base;1"\<close> itself is not an entry.
\<close>

theorem getModelDependencies_inline_object_nested:
  "getModelDependencies
     (DTDL (Some ''dtmi:com:example:Thermostat;1'') None
        (ExtArr [EObj (DTDL None None (ExtStr ''dtmi:com:example:Base;1''))]))
   = [DArr [DStr ''dtmi:com:example:Base;1'']]"
  by (simp add: arrayFromSet_def contentsDependencies_def)

text \<open>
  The string entries of the scan are as the claim has them: the non-empty schema
  strings of the components, the string value of \<open>extends\<close>, and the string elements of an
  \<open>extends\<close> array; the \<open>Set\<close> removes entries but adds and loses no value.
\<close>

lemma set_setFrom:
  "set (setFrom seen ds) = {d \<in> set ds. \<forall>s. d = DStr s \<longrightarrow> s \<notin> set seen}"
proof (induction seen ds rule: setFrom.induct)
  case (1 seen)
  then show ?case by simp
next
  case (2 seen s ds)
  then show ?case by auto
next
  case (3 seen a ds)
  then show ?case by auto
qed

lemma set_arrayFromSet: "set (arrayFromSet ds) = set ds"
  by (simp add: arrayFromSet_def set_setFrom)

lemma string_componentSchema:
  "(DStr s \<in> set (componentSchema (Element t sch)))
     = (t = JStr ''Component'' \<and> sch = JStr s \<and> s \<noteq> [])"
proof (cases "t = JStr ''Component''")
  case True
  show ?thesis
  proof (cases sch)
    case JUndefined
    with True show ?thesis by (simp add: componentSchema_def)
  next
    case (JStr x)
    with True show ?thesis by (simp add: componentSchema_def) blast
  next
    case JOther
    with True show ?thesis by (simp add: componentSchema_def)
  qed
next
  case False
  then show ?thesis by (simp add: componentSchema_def)
qed

lemma string_elementDependencies: "DStr s \<in> set (elementDependencies x) \<longleftrightarrow> x = EStr s"
  by (cases x) auto

lemma string_dependencies:
  "DStr s \<in> set (getModelDependencies (DTDL i c e)) \<longleftrightarrow>
     (\<exists>els. c = Some els \<and> Element (JStr ''Component'') (JStr s) \<in> set els \<and> s \<noteq> [])
     \<or> e = ExtStr s
     \<or> (\<exists>es. e = ExtArr es \<and> EStr s \<in> set es)"
proof -
  have c: "DStr s \<in> set (contentsDependencies c) \<longleftrightarrow>
      (\<exists>els. c = Some els \<and> Element (JStr ''Component'') (JStr s) \<in> set els \<and> s \<noteq> [])"
  proof (cases c)
    case None
    then show ?thesis by (simp add: contentsDependencies_def)
  next
    case (Some els)
    have "(\<exists>el\<in>set els. DStr s \<in> set (componentSchema el))
        = (Element (JStr ''Component'') (JStr s) \<in> set els \<and> s \<noteq> [])"
    proof
      assume "\<exists>el\<in>set els. DStr s \<in> set (componentSchema el)"
      then obtain el where el: "el \<in> set els" "DStr s \<in> set (componentSchema el)" by blast
      obtain t sch where "el = Element t sch" by (cases el)
      with el string_componentSchema [of s t sch]
      show "Element (JStr ''Component'') (JStr s) \<in> set els \<and> s \<noteq> []" by simp
    next
      assume "Element (JStr ''Component'') (JStr s) \<in> set els \<and> s \<noteq> []"
      with string_componentSchema [of s "JStr ''Component''" "JStr s"]
      show "\<exists>el\<in>set els. DStr s \<in> set (componentSchema el)" by blast
    qed
    with Some show ?thesis by (simp add: contentsDependencies_def)
  qed
  have e: "DStr s \<in> set (extendsDependencies e) \<longleftrightarrow>
      e = ExtStr s \<or> (\<exists>es. e = ExtArr es \<and> EStr s \<in> set es)"
    by (cases e) (auto simp: string_elementDependencies)
  show ?thesis
    by (simp add: set_arrayFromSet c e)
qed

section \<open>The client\<close>

text \<open>
  C1. The claim: in the \<open>tryFromExpanded\<close> mode, when the expanded documents cannot be
  fetched (a \<open>RestError\<close>, here of status 404), \<open>getModels\<close> falls back to the \<open>enabled\<close>
  path and returns the same map. The code catches the \<open>RestError\<close>, logs, and does nothing
  more: \<open>modelMap\<close> is still unassigned at \<open>return modelMap\<close>. Over the repository without
  expanded documents the call returns \<open>undefined\<close> after one resolver call, where the
  \<open>enabled\<close> mode returns both models.
\<close>

theorem getModels_tryFromExpanded_returns_undefined:
  "getModels exRepoPlain Enabled [0] (One ''dtmi:com:example:A;1'') (Some TryFromExpanded)
     = Some (Inr (None, [([DStr ''dtmi:com:example:A;1''], Some True)]))
   \<and> getModels exRepoPlain Enabled [0] (One ''dtmi:com:example:A;1'') (Some Enabled)
     = Some (Inr (Some [(''dtmi:com:example:A;1'', exA), (''dtmi:com:example:B;1'', exB)],
                  [([DStr ''dtmi:com:example:A;1''], None), ([DStr ''dtmi:com:example:B;1''], None)]))"
  by (simp add: getModels_def ex_defs run_defs)

text \<open>
  The same for every request and every resolver: a \<open>RestError\<close> of the expanded
  resolution leaves \<open>undefined\<close> to return, after this one resolver call.
\<close>

lemma getModels_tryFromExpanded_swallows_rest_error:
  assumes "resolutionMode options configured = TryFromExpanded"
    and "resolver (map DStr (toArray dtmis)) (Some True) = Inl (RestError c)"
  shows "getModels resolver configured schedule dtmis options
           = Some (Inr (None, [(map DStr (toArray dtmis), Some True)]))"
  using assms by (simp add: getModels_def)

text \<open>
  C7. In the \<open>disabled\<close> mode \<open>getModels\<close> resolves the requested identifiers with one
  call of the resolver (no flag) and nothing else: when that call throws, for instance
  the \<open>RestError\<close> of a missing document, \<open>getModels\<close> throws the same error and returns no
  map; when it returns a map, \<open>getModels\<close> returns exactly that map, and the log holds no
  other call, so nothing was expanded.
\<close>

theorem getModels_disabled_resolves_only:
  assumes "resolutionMode options configured = Disabled"
  shows "(\<forall>e. resolver (map DStr (toArray dtmis)) None = Inl e
            \<longrightarrow> getModels resolver configured schedule dtmis options = Some (Inl e))
       \<and> (\<forall>m. resolver (map DStr (toArray dtmis)) None = Inr m
            \<longrightarrow> getModels resolver configured schedule dtmis options
                  = Some (Inr (Some m, [(map DStr (toArray dtmis), None)])))"
  using assms by (simp add: getModels_def)

theorem getModels_disabled_resolves_only_witness:
  "getModels exRepo Enabled [] (Many [''dtmi:com:example:A;1'']) (Some Disabled)
     = Some (Inr (Some [(''dtmi:com:example:A;1'', exA)], [([DStr ''dtmi:com:example:A;1''], None)]))
   \<and> getModels exRepo Disabled [] (One ''dtmi:com:example:Missing;1'') None
     = Some (Inl (RestError 404))"
proof -
  have mode: "resolutionMode (Some Disabled) Enabled = Disabled"
    and mode': "resolutionMode None Disabled = Disabled"
    by simp_all
  have found: "exRepo (map DStr (toArray (Many [''dtmi:com:example:A;1'']))) None
      = Inr [(''dtmi:com:example:A;1'', exA)]"
    by (simp add: ex_defs hasProp_def List.map_filter_def)
  have missing: "exRepo (map DStr (toArray (One ''dtmi:com:example:Missing;1''))) None
      = Inl (RestError 404)"
    by (simp add: ex_defs hasProp_def)
  show ?thesis
    using getModels_disabled_resolves_only [OF mode, of exRepo "Many [''dtmi:com:example:A;1'']" "[]"]
      getModels_disabled_resolves_only [OF mode', of exRepo "One ''dtmi:com:example:Missing;1''" "[]"]
      found missing
    by simp
qed

text \<open>
  C9. A single DTMI is wrapped into a one-element array before anything else is done, so
  \<open>getModels(d, o)\<close> and \<open>getModels([d], o)\<close> are the same computation: same result, same
  resolver calls, for every resolver, configured mode, completion order and options.
\<close>

theorem getModels_single_string_is_singleton_array:
  "getModels resolver configured schedule (One d) options
     = getModels resolver configured schedule (Many [d]) options"
  by (simp add: getModels_def)

section \<open>The expander\<close>

text \<open>
  C10. If some initial model has no \<open>"@id"\<close>, \<open>expand\<close> never returns a map. The models
  before the first such model are stored and expanded first; if one of these expansions
  throws, \<open>expand\<close> throws that error; as soon as they have all completed, \<open>expand\<close> throws
  its own error for the model without \<open>"@id"\<close>. So whenever the expansion of the models
  before it comes to an end under a schedule, \<open>expand\<close> throws under that schedule.
\<close>

theorem expand_missing_id_throws:
  assumes "\<exists>model\<in>set models. at_id model = None"
  shows "(\<forall>m log. expand resolver schedule models tfe \<noteq> Some (Inr (m, log)))
       \<and> (expand resolver schedule (takeWhile (\<lambda>model. at_id model \<noteq> None) models) tfe \<noteq> None
            \<longrightarrow> (\<exists>e. expand resolver schedule models tfe = Some (Inl e)))"
proof -
  let ?P = "\<lambda>model. at_id model \<noteq> None"
  let ?st = "\<lparr>modelMap = [], pending = [], calls = []\<rparr>"
  from assms have "dropWhile ?P models \<noteq> []"
    by (auto simp: dropWhile_eq_Nil_conv)
  then obtain bad rest where dw: "dropWhile ?P models = bad # rest"
    by (cases "dropWhile ?P models") auto
  then have bad: "at_id bad = None"
    using hd_dropWhile [of ?P models] by fastforce
  have parts: "models = takeWhile ?P models @ bad # rest"
    using dw takeWhile_dropWhile_id [of ?P models] by simp
  have "expandLoop resolver tfe schedule ?st models =
     (case expandLoop resolver tfe schedule ?st (takeWhile ?P models) of
        None \<Rightarrow> None
      | Some (Inl e) \<Rightarrow> Some (Inl e)
      | Some (Inr (st', s')) \<Rightarrow>
          Some (Inl (Error ''model [object Object] does not contain @id member'')))"
    by (subst parts, subst expandLoop_append) (simp add: bad split: option.splits sum.splits)
  then show ?thesis
    by (auto simp: expand_def split: option.splits sum.splits)
qed

theorem expand_missing_id_throws_witness:
  "expand exRepo [0] [exA, DTDL None None ExtUndefined] None
     = Some (Inl (Error ''model [object Object] does not contain @id member''))"
proof -
  have bad: "\<exists>model\<in>set [exA, DTDL None None ExtUndefined]. at_id model = None"
    by simp
  have "expand exRepo [0] [exA, DTDL None None ExtUndefined] None
          \<noteq> Some (Inr ([(''dtmi:com:example:A;1'', exA), (''dtmi:com:example:B;1'', exB)], []))"
    using expand_missing_id_throws [OF bad, of exRepo "[0]" None] by blast
  then show ?thesis
    by (simp add: ex_defs run_defs)
qed

text \<open>
  C5. A model graph with a cycle through the initial model: \<open>A\<close>, with the \<open>"@id"\<close> \<open>a\<close>,
  has the dependency \<open>b\<close>; the repository \<open>table\<close> holds \<open>docB\<close> under \<open>b\<close>, and \<open>docB\<close> has
  the dependency \<open>a\<close>. The graph is finite and may be of any shape otherwise: every
  dependency of \<open>A\<close> and of every document of the repository is a key of the repository.
  The resolver delivers: for every batch of keys of the repository its first attempt, or
  after a \<open>RestError\<close> its retry with \<open>false\<close>, is an answer over the repository.

  Then \<open>expand([A])\<close> comes to an end in whatever order the resolutions complete: it
  returns under every schedule of at least \<open>2 (2 (n + 1)) ^ n\<close> completions, \<open>n\<close> the size
  of the repository. The keys of the returned map are distinct, and \<open>a\<close> and \<open>b\<close> are among
  them; the map holds every string dependency of each of its documents; its keys are
  \<open>a\<close> and keys of the repository; and no batch sent to the resolver asks for \<open>a\<close>: the
  expansion of \<open>B\<close> finds \<open>A\<close> in the map. The last conjunct is the guard of the recursion:
  a call of \<open>_expand\<close> suspends nothing and resolves nothing, so that the recursion ends
  there, exactly when every dependency of its model is a key of the map.
\<close>

theorem expand_terminates_on_cyclic_graph:
  assumes root: "at_id docA = Some a"
    and extendsB: "DStr b \<in> set (getModelDependencies docA)"
    and stored: "(b, docB) \<in> set table"
    and extendsA: "DStr a \<in> set (getModelDependencies docB)"
    and rootDeps: "\<forall>d\<in>set (getModelDependencies docA). hasProp (depKey d) table"
    and finite: "\<forall>(k, v)\<in>set table. \<forall>d\<in>set (getModelDependencies v). hasProp (depKey d) table"
    and delivers: "\<forall>deps. (\<forall>d\<in>set deps. hasProp (depKey d) table) \<longrightarrow>
              (\<exists>m. resolver deps tfe = Inr m \<and> answer table deps m)
              \<or> (\<exists>c m. resolver deps tfe = Inl (RestError c)
                        \<and> resolver deps (Some False) = Inr m \<and> answer table deps m)"
    and long: "2 * (2 * Suc (length table)) ^ length table \<le> length schedule"
  shows "(\<exists>m log. expand resolver schedule [docA] tfe = Some (Inr (m, log))
            \<and> distinct (map fst m) \<and> hasProp a m \<and> hasProp b m
            \<and> (\<forall>(k, v)\<in>set m. \<forall>s. DStr s \<in> set (getModelDependencies v) \<longrightarrow> hasProp s m)
            \<and> fst ` set m \<subseteq> insert a (fst ` set table)
            \<and> (\<forall>call\<in>set log. DStr a \<notin> set (fst call)))
         \<and> (\<forall>model st. (startExpand tfe model st = st)
               = (\<forall>d\<in>set (getModelDependencies model). hasProp (depKey d) (modelMap st)))"
proof -
  define st0 :: pool where "st0 = \<lparr>modelMap = [], pending = [], calls = []\<rparr>"
  define seeded where "seeded = startExpand tfe docA (st0\<lparr>modelMap := setProp (modelMap st0) a docA\<rparr>)"
  have inv0: "termInv resolver table [] st0" and idle0: "pending st0 = []"
    by (simp_all add: termInv_def closedInv_def st0_def)
  have models: "\<forall>model\<in>set [docA]. at_id model \<noteq> None
                 \<and> (\<forall>d\<in>set (getModelDependencies model). hasProp (depKey d) table)"
    using root rootDeps by simp
  from long have "length [docA] * (2 * (2 * Suc (length table)) ^ length table) \<le> length schedule"
    by simp
  from expandLoop_terminates [OF finite delivers models inv0 idle0 this] obtain st' rest
    where loop: "expandLoop resolver tfe schedule st0 [docA] = Some (Inr (st', rest))"
      and inv: "termInv resolver table [docA] st'" and idle: "pending st' = []"
    by auto
  from loop root have run: "runPool resolver tfe schedule seeded = Some (Inr (st', rest))"
    by (auto simp: seeded_def split: option.splits sum.splits)
  have "unrequested a (st0\<lparr>modelMap := setProp (modelMap st0) a docA\<rparr>)"
    by (simp add: unrequested_def st0_def hasProp_def)
  then have "unrequested a seeded"
    unfolding seeded_def by (rule unrequested_startExpand)
  with run have never: "unrequested a st'"
    using runPool_invariant [of "unrequested a" resolver tfe seeded schedule st' rest] unrequested_step
    by blast
  define m where "m = modelMap st'"
  from inv have closed: "closedInv [docA] st'" and dist: "distinct (map fst m)"
    and origin: "\<And>k v. (k, v) \<in> set m \<Longrightarrow> (k, v) \<in> set table \<or> (v \<in> set [docA] \<and> at_id v = Some k)"
    unfolding termInv_def m_def by blast+
  have cov: "hasProp s m" if "w \<in> set [docA] \<union> snd ` set m" and "DStr s \<in> set (getModelDependencies w)" for w s
  proof -
    from closed that(1) have "covered st' w" unfolding closedInv_def m_def by blast
    with that(2) idle show ?thesis by (auto simp: covered_def m_def)
  qed
  have result: "expand resolver schedule [docA] tfe = Some (Inr (m, calls st'))"
    using loop by (simp add: expand_def st0_def m_def)
  have hasA: "hasProp a m"
    using never by (simp add: unrequested_def m_def)
  have hasB: "hasProp b m"
    using cov [of docA b] extendsB by simp
  have closure: "\<forall>(k, v)\<in>set m. \<forall>s. DStr s \<in> set (getModelDependencies v) \<longrightarrow> hasProp s m"
  proof (intro ballI allI impI, clarify)
    fix k v s assume "(k, v) \<in> set m" and s: "DStr s \<in> set (getModelDependencies v)"
    then have "v \<in> set [docA] \<union> snd ` set m" by force
    from cov [OF this s] show "hasProp s m" .
  qed
  have keys: "fst ` set m \<subseteq> insert a (fst ` set table)"
  proof
    fix k assume "k \<in> fst ` set m"
    then obtain v where "(k, v) \<in> set m" by auto
    from origin [OF this] root show "k \<in> insert a (fst ` set table)" by force
  qed
  have log: "\<forall>call\<in>set (calls st'). DStr a \<notin> set (fst call)"
  proof
    fix call assume "call \<in> set (calls st')"
    with never have "a \<notin> depKey ` set (fst call)" by (simp add: unrequested_def)
    then show "DStr a \<notin> set (fst call)" by force
  qed
  from result dist hasA hasB closure keys log startExpand_guard show ?thesis by blast
qed

theorem expand_terminates_on_cyclic_graph_witness:
  "(\<exists>m log. expand exGraphRepo (replicate 15059072 0) [exHub] (Some True) = Some (Inr (m, log))
      \<and> distinct (map fst m)
      \<and> hasProp ''dtmi:com:example:Hub;1'' m \<and> hasProp ''dtmi:com:example:Relay;1'' m)
   \<and> expand exGraphRepo [0, 0, 1, 0, 1, 0, 0, 0] [exHub] (Some True)
       = Some (Inr ([(''dtmi:com:example:Hub;1'', exHub), (''dtmi:com:example:User;1'', exUser),
                     (''dtmi:com:example:Relay;1'', exRelay), (''dtmi:com:example:A;1'', exA),
                     (''dtmi:com:example:Leaf;1'', exLeaf), (''dtmi:com:example:B;1'', exB)],
                    [([DStr ''dtmi:com:example:User;1'', DStr ''dtmi:com:example:Relay;1''], Some True),
                     ([DStr ''dtmi:com:example:User;1'', DStr ''dtmi:com:example:Relay;1''], Some False),
                     ([DStr ''dtmi:com:example:Leaf;1''], Some True),
                     ([DStr ''dtmi:com:example:A;1''], Some True),
                     ([DStr ''dtmi:com:example:A;1''], Some False),
                     ([DStr ''dtmi:com:example:Leaf;1''], Some False),
                     ([DStr ''dtmi:com:example:B;1''], Some True),
                     ([DStr ''dtmi:com:example:B;1''], Some False)]))"
proof -
  have root: "at_id exHub = Some ''dtmi:com:example:Hub;1''"
    by (simp add: exHub_def)
  have depsHub: "getModelDependencies exHub
                   = [DStr ''dtmi:com:example:User;1'', DStr ''dtmi:com:example:Relay;1'']"
    and depsRelay: "getModelDependencies exRelay
                   = [DStr ''dtmi:com:example:Hub;1'', DStr ''dtmi:com:example:A;1'']"
    and depsUser: "getModelDependencies exUser = [DStr ''dtmi:com:example:Leaf;1'']"
    and depsLeaf: "getModelDependencies exLeaf = []"
    and depsA: "getModelDependencies exA = [DStr ''dtmi:com:example:B;1'']"
    and depsB: "getModelDependencies exB = [DStr ''dtmi:com:example:A;1'']"
    by (simp_all add: graph_defs ex_defs arrayFromSet_def contentsDependencies_def componentSchema_def)
  have graph: "exGraph = [(''dtmi:com:example:A;1'', exA), (''dtmi:com:example:B;1'', exB),
              (''dtmi:com:example:Leaf;1'', exLeaf), (''dtmi:com:example:User;1'', exUser),
              (''dtmi:com:example:Hub;1'', exHub), (''dtmi:com:example:Relay;1'', exRelay)]"
    by (simp add: exGraph_def exTable_def)
  have extendsB: "DStr ''dtmi:com:example:Relay;1'' \<in> set (getModelDependencies exHub)"
    by (simp add: depsHub)
  have stored: "(''dtmi:com:example:Relay;1'', exRelay) \<in> set exGraph"
    by (simp add: graph)
  have extendsA: "DStr ''dtmi:com:example:Hub;1'' \<in> set (getModelDependencies exRelay)"
    by (simp add: depsRelay)
  have rootDeps: "\<forall>d\<in>set (getModelDependencies exHub). hasProp (depKey d) exGraph"
    by (simp add: depsHub graph hasProp_def)
  have finite: "\<forall>(k, v)\<in>set exGraph. \<forall>d\<in>set (getModelDependencies v). hasProp (depKey d) exGraph"
    unfolding graph
    by (simp add: depsHub depsRelay depsUser depsLeaf depsA depsB hasProp_def)
  have delivers: "\<forall>deps. (\<forall>d\<in>set deps. hasProp (depKey d) exGraph) \<longrightarrow>
              (\<exists>m. exGraphRepo deps (Some True) = Inr m \<and> answer exGraph deps m)
              \<or> (\<exists>c m. exGraphRepo deps (Some True) = Inl (RestError c)
                        \<and> exGraphRepo deps (Some False) = Inr m \<and> answer exGraph deps m)"
  proof (intro allI impI disjI2)
    fix deps assume known: "\<forall>d\<in>set deps. hasProp (depKey d) exGraph"
    let ?m = "assignAll [] (List.map_filter
                (\<lambda>d. map_option (Pair (depKey d)) (map_of exGraph (depKey d))) deps)"
    have "exGraphRepo deps (Some True) = Inl (RestError 404)"
      by (simp add: exGraphRepo_def)
    moreover from known have "exGraphRepo deps (Some False) = Inr ?m"
      by (simp add: exGraphRepo_def list_all_iff)
    moreover from known have "answer exGraph deps ?m" by (rule lookup_answer)
    ultimately show "\<exists>c m. exGraphRepo deps (Some True) = Inl (RestError c)
                        \<and> exGraphRepo deps (Some False) = Inr m \<and> answer exGraph deps m"
      by blast
  qed
  define steps where "steps = replicate 15059072 (0::nat)"
  have "length exGraph = 6" by (simp add: graph)
  then have long: "2 * (2 * Suc (length exGraph)) ^ length exGraph \<le> length steps"
    by (simp add: steps_def)
  have run: "expand exGraphRepo [0, 0, 1, 0, 1, 0, 0, 0] [exHub] (Some True)
       = Some (Inr ([(''dtmi:com:example:Hub;1'', exHub), (''dtmi:com:example:User;1'', exUser),
                     (''dtmi:com:example:Relay;1'', exRelay), (''dtmi:com:example:A;1'', exA),
                     (''dtmi:com:example:Leaf;1'', exLeaf), (''dtmi:com:example:B;1'', exB)],
                    [([DStr ''dtmi:com:example:User;1'', DStr ''dtmi:com:example:Relay;1''], Some True),
                     ([DStr ''dtmi:com:example:User;1'', DStr ''dtmi:com:example:Relay;1''], Some False),
                     ([DStr ''dtmi:com:example:Leaf;1''], Some True),
                     ([DStr ''dtmi:com:example:A;1''], Some True),
                     ([DStr ''dtmi:com:example:A;1''], Some False),
                     ([DStr ''dtmi:com:example:Leaf;1''], Some False),
                     ([DStr ''dtmi:com:example:B;1''], Some True),
                     ([DStr ''dtmi:com:example:B;1''], Some False)]))"
    by (simp add: graph_defs ex_defs run_defs List.map_filter_def arrayFromSet_def
        contentsDependencies_def componentSchema_def Let_def)
  from expand_terminates_on_cyclic_graph
         [where resolver = exGraphRepo and table = exGraph and tfe = "Some True",
          OF root extendsB stored extendsA rootDeps finite delivers long]
  have "\<exists>m log. expand exGraphRepo steps [exHub] (Some True) = Some (Inr (m, log))
      \<and> distinct (map fst m)
      \<and> hasProp ''dtmi:com:example:Hub;1'' m \<and> hasProp ''dtmi:com:example:Relay;1'' m"
    by (elim conjE exE) (intro exI conjI, assumption+)
  then have "\<exists>m log. expand exGraphRepo (replicate 15059072 0) [exHub] (Some True) = Some (Inr (m, log))
      \<and> distinct (map fst m)
      \<and> hasProp ''dtmi:com:example:Hub;1'' m \<and> hasProp ''dtmi:com:example:Relay;1'' m"
    unfolding steps_def .
  with run show ?thesis by (rule conjI [rotated])
qed

text \<open>
  The bare cycle, in which \<open>A\<close> depends on \<open>B\<close> only and \<open>B\<close> on \<open>A\<close> only: one completion
  is enough when the resolver returns the document of \<open>B\<close> at once, and the resolver is
  called once.
\<close>

lemma expand_two_cycle:
  assumes "at_id docA = Some A" and "getModelDependencies docA = [DStr B]"
    and "getModelDependencies docB = [DStr A]" and "A \<noteq> B"
    and "resolver [DStr B] tfe = Inr [(B, docB)]"
  shows "expand resolver (i # schedule) [docA] tfe
           = Some (Inr ([(A, docA), (B, docB)], [([DStr B], tfe)]))"
  using assms
  by (simp add: expand_def startExpand_def resumeExpand_def assignAll_def hasProp_def Let_def
      runPool_idle)

text \<open>
  When the first resolution of \<open>B\<close> throws a \<open>RestError\<close> and the retry returns the document,
  the call comes to an end after these two completions, with the same map.
\<close>

lemma expand_cycle_after_retry:
  assumes "at_id docA = Some A" and "getModelDependencies docA = [DStr B]"
    and "getModelDependencies docB = [DStr A]" and "A \<noteq> B"
    and "resolver [DStr B] tfe = Inl (RestError c)"
    and "resolver [DStr B] (Some False) = Inr [(B, docB)]"
  shows "expand resolver (i # j # schedule) [docA] tfe
           = Some (Inr ([(A, docA), (B, docB)], [([DStr B], tfe), ([DStr B], Some False)]))"
  using assms
  by (simp add: expand_def startExpand_def resumeExpand_def assignAll_def hasProp_def Let_def
      runPool_idle)

text \<open>
  C6, as stated: for a list that holds its own dependency closure, \<open>expand\<close> returns the
  input and fetches nothing. The loop of \<open>expand\<close> stores one model and expands it before
  it stores the next, so a dependency that stands later in the list is not yet a key
  when it is looked for, and is resolved. The list \<open>[A, B]\<close> of the two models that extend
  each other holds its closure; yet expanding \<open>A\<close> asks the resolver for \<open>B\<close>: offline,
  \<open>expand\<close> throws, and over the repository the log shows the fetch.
\<close>

theorem expand_idempotent_counterexample:
  "at_id exA = Some ''dtmi:com:example:A;1'' \<and> at_id exB = Some ''dtmi:com:example:B;1''
   \<and> getModelDependencies exA = [DStr ''dtmi:com:example:B;1'']
   \<and> getModelDependencies exB = [DStr ''dtmi:com:example:A;1'']
   \<and> expand exOffline [0] [exA, exB] None = Some (Inl (OtherError ''offline''))
   \<and> expand exRepo [0] [exA, exB] None
       = Some (Inr ([(''dtmi:com:example:A;1'', exA), (''dtmi:com:example:B;1'', exB)],
                    [([DStr ''dtmi:com:example:B;1''], None)]))"
  by (simp add: ex_defs run_defs)

text \<open>
  C6, amended: when every model of the list has an \<open>"@id"\<close> and every dependency of a model
  is the \<open>"@id"\<close> of that model or of a model before it in the list, \<open>expand\<close> calls the
  resolver not once (the log is empty, whatever the resolver and the schedule are) and
  returns the map of the input models.
\<close>

theorem expand_no_fetch_when_dependencies_precede:
  assumes "\<forall>i<length models. \<exists>k. at_id (models ! i) = Some k \<and>
           (\<forall>d\<in>set (getModelDependencies (models ! i)).
              \<exists>j\<le>i. at_id (models ! j) = Some (depKey d))"
  shows "expand resolver schedule models tfe
           = Some (Inr (foldl (\<lambda>m model. case at_id model of None \<Rightarrow> m | Some k \<Rightarrow> setProp m k model)
                          [] models, []))"
proof -
  let ?st = "\<lparr>modelMap = [], pending = [], calls = []\<rparr>"
  have "pending ?st = []" by simp
  moreover have "\<forall>i<length models. \<exists>k. at_id (models ! i) = Some k \<and>
           (\<forall>d\<in>set (getModelDependencies (models ! i)).
              hasProp (depKey d) (modelMap ?st) \<or> (\<exists>j\<le>i. at_id (models ! j) = Some (depKey d)))"
    using assms by blast
  ultimately show ?thesis
    by (simp add: expand_def expandLoop_seeded)
qed

theorem expand_no_fetch_when_dependencies_precede_witness:
  "expand exOffline [] [exLeaf, exUser] (Some True)
     = Some (Inr ([(''dtmi:com:example:Leaf;1'', exLeaf), (''dtmi:com:example:User;1'', exUser)], []))"
proof -
  have "\<forall>i<length [exLeaf, exUser]. \<exists>k. at_id ([exLeaf, exUser] ! i) = Some k \<and>
           (\<forall>d\<in>set (getModelDependencies ([exLeaf, exUser] ! i)).
              \<exists>j\<le>i. at_id ([exLeaf, exUser] ! j) = Some (depKey d))"
    by (auto simp: less_Suc_eq ex_defs arrayFromSet_def contentsDependencies_def componentSchema_def)
  from expand_no_fetch_when_dependencies_precede [OF this, of exOffline "[]" "Some True"]
  show ?thesis by (simp add: ex_defs)
qed

text \<open>
  C3, as stated: the expander passes every failure on, and only the client turns a missing
  expanded document into a fallback. The \<open>catch\<close> branch of \<open>_expand\<close> does the opposite:
  a \<open>RestError\<close> of any status thrown by the resolution of a batch is caught there, and
  the batch is resolved again with \<open>false\<close>. Over a repository that answers expanded
  requests with status 500, and over one that answers them with 404, \<open>expand\<close> with the
  flag \<open>true\<close> returns the full map after the retry.
\<close>

theorem expand_intercepts_rest_error_counterexample:
  "exRepoBusy [DStr ''dtmi:com:example:B;1''] (Some True) = Inl (RestError 500)
   \<and> expand exRepoBusy [0, 0] [exA] (Some True)
       = Some (Inr ([(''dtmi:com:example:A;1'', exA), (''dtmi:com:example:B;1'', exB)],
                    [([DStr ''dtmi:com:example:B;1''], Some True),
                     ([DStr ''dtmi:com:example:B;1''], Some False)]))
   \<and> exRepoPlain [DStr ''dtmi:com:example:B;1''] (Some True) = Inl (RestError 404)
   \<and> expand exRepoPlain [0, 0] [exA] (Some True)
       = Some (Inr ([(''dtmi:com:example:A;1'', exA), (''dtmi:com:example:B;1'', exB)],
                    [([DStr ''dtmi:com:example:B;1''], Some True),
                     ([DStr ''dtmi:com:example:B;1''], Some False)]))"
  by (simp add: ex_defs run_defs)

text \<open>
  C3, amended. Under every schedule: when \<open>expand\<close> throws, the error is its own error for
  a model without \<open>"@id"\<close>, or the unchanged error of a batch resolution that is not a
  \<open>RestError\<close>, or the unchanged error of the retry with \<open>false\<close> that followed a
  \<open>RestError\<close>; and when \<open>expand\<close> returns, every call it made to the resolver either
  returned or threw a \<open>RestError\<close> whose batch the retry with \<open>false\<close> then resolved. So a
  \<open>RestError\<close> is intercepted by the expander itself, and any other failure of a
  resolution, like a failure of the retry, ends the whole call.
\<close>

theorem expand_failure_policy:
  "(expand resolver schedule models tfe = Some (Inl e) \<longrightarrow>
      e = Error ''model [object Object] does not contain @id member''
      \<or> (\<exists>deps. (resolver deps tfe = Inl e \<and> \<not> isRestError e)
               \<or> (\<exists>c. resolver deps tfe = Inl (RestError c) \<and> resolver deps (Some False) = Inl e)))
   \<and> (expand resolver schedule models tfe = Some (Inr (m, log)) \<longrightarrow>
        (\<forall>call\<in>set log. recovered resolver call))"
proof (intro conjI impI)
  let ?st = "\<lparr>modelMap = [], pending = [], calls = []\<rparr>"
  let ?P = "\<lambda>ms :: dtdl list. policyInv resolver tfe"
  have step: "?P ms st2" if "?P ms st1" "i < length (pending st1)"
      "resumeExpand resolver tfe i st1 = Inr st2" for ms i st1 st2
    using policyInv_step [OF that] .
  have seed: "?P (ms @ [model]) (startExpand tfe model (st1\<lparr>modelMap := setProp (modelMap st1) k model\<rparr>))"
      if "?P ms st1" "pending st1 = []" "at_id model = Some k" for ms st1 model k
    using that(1) by (simp add: policyInv_startExpand)
  have init: "?P [] ?st" by (simp add: policyInv_def)
  {
    assume "expand resolver schedule models tfe = Some (Inl e)"
    then have loop: "expandLoop resolver tfe schedule ?st models = Some (Inl e)"
      by (auto simp: expand_def split: option.splits sum.splits)
    have "e = Error ''model [object Object] does not contain @id member''
       \<or> (\<exists>ms0 st0 i. ?P ms0 st0 \<and> i < length (pending st0) \<and> resumeExpand resolver tfe i st0 = Inl e)"
      by (rule expandLoop_failure [where P = ?P, OF step seed init _ loop]) simp_all
    then show "e = Error ''model [object Object] does not contain @id member''
      \<or> (\<exists>deps. (resolver deps tfe = Inl e \<and> \<not> isRestError e)
               \<or> (\<exists>c. resolver deps tfe = Inl (RestError c) \<and> resolver deps (Some False) = Inl e))"
      using policyInv_failure by blast
  }
  {
    assume "expand resolver schedule models tfe = Some (Inr (m, log))"
    then obtain st' s' where loop: "expandLoop resolver tfe schedule ?st models = Some (Inr (st', s'))"
      and log: "log = calls st'"
      by (auto simp: expand_def split: option.splits sum.splits)
    have "?P ([] @ models) st' \<and> pending st' = []"
      by (rule expandLoop_invariant [where P = ?P, OF step seed init _ loop]) simp_all
    then show "\<forall>call\<in>set log. recovered resolver call"
      by (auto simp: policyInv_def log)
  }
qed

theorem expand_failure_policy_witness:
  "expand exRepoBusy [0, 0] [exA] (Some True)
       = Some (Inr ([(''dtmi:com:example:A;1'', exA), (''dtmi:com:example:B;1'', exB)],
                    [([DStr ''dtmi:com:example:B;1''], Some True),
                     ([DStr ''dtmi:com:example:B;1''], Some False)]))
   \<and> recovered exRepoBusy ([DStr ''dtmi:com:example:B;1''], Some True)
   \<and> expand exOffline [0] [exA] None = Some (Inl (OtherError ''offline''))
   \<and> exOffline [DStr ''dtmi:com:example:B;1''] None = Inl (OtherError ''offline'')"
proof -
  let ?m = "[(''dtmi:com:example:A;1'', exA), (''dtmi:com:example:B;1'', exB)]"
  let ?log = "[([DStr ''dtmi:com:example:B;1''], Some True),
               ([DStr ''dtmi:com:example:B;1''], Some False)]"
  have run: "expand exRepoBusy [0, 0] [exA] (Some True) = Some (Inr (?m, ?log))"
    by (simp add: ex_defs run_defs)
  have off: "expand exOffline [0] [exA] None = Some (Inl (OtherError ''offline''))"
    by (simp add: ex_defs run_defs)
  from expand_failure_policy [of exRepoBusy "[0, 0]" "[exA]" "Some True" "OtherError ''offline''" ?m ?log] run
  have "\<forall>call\<in>set ?log. recovered exRepoBusy call" by blast
  then have "recovered exRepoBusy ([DStr ''dtmi:com:example:B;1''], Some True)" by simp
  with run off show ?thesis by (simp add: exOffline_def)
qed

text \<open>
  C2. The claim: after a successful \<open>expand\<close> every identifier reachable from the initial
  models through \<open>extends\<close> and component schemas is a key of the returned map, and no
  partial map is returned silently. The dependency scan looks at \<open>extends\<close> only when it
  is a string or an array; a single inline object is skipped, with the identifiers it
  extends. For the model \<open>exInline\<close>, whose \<open>extends\<close> is an inline object that extends
  \<open>dtmi:com:example:Base;1\<close>, the scan finds no dependency, so \<open>expand\<close> makes no call to
  the resolver and returns, whatever the resolver, the schedule and the flag, the map
  that holds the initial model only: \<open>dtmi:com:example:Base;1\<close> is not a key of it, and no
  error is thrown.
\<close>

theorem expand_omits_inline_extends:
  "extends exInline = ExtObj (DTDL None None (ExtStr ''dtmi:com:example:Base;1''))
   \<and> getModelDependencies exInline = []
   \<and> expand resolver schedule [exInline] tryFromExpanded
       = Some (Inr ([(''dtmi:com:example:Thermostat;1'', exInline)], []))
   \<and> \<not> hasProp ''dtmi:com:example:Base;1'' [(''dtmi:com:example:Thermostat;1'', exInline)]"
proof -
  have scan: "getModelDependencies exInline = []"
    by (simp add: exInline_def arrayFromSet_def contentsDependencies_def)
  have id: "at_id exInline = Some ''dtmi:com:example:Thermostat;1''"
    and ext: "extends exInline = ExtObj (DTDL None None (ExtStr ''dtmi:com:example:Base;1''))"
    by (simp_all add: exInline_def)
  have idle: "startExpand tryFromExpanded exInline st = st" for st
    by (simp add: startExpand_def scan)
  have run: "expand resolver schedule [exInline] tryFromExpanded
       = Some (Inr ([(''dtmi:com:example:Thermostat;1'', exInline)], []))"
    by (simp add: expand_def id idle runPool_idle)
  have "\<not> hasProp ''dtmi:com:example:Base;1'' [(''dtmi:com:example:Thermostat;1'', exInline)]"
    by (simp add: hasProp_def)
  with ext scan run show ?thesis by blast
qed

text \<open>
  What the expansion does guarantee is the closure under the string entries of the scan
  (the schema of a component, a string in \<open>extends\<close>, a string element of an \<open>extends\<close>
  array), for a resolver that returns every requested string as a key whenever it
  returns: after a successful \<open>expand\<close>, under every schedule, the \<open>"@id"\<close> of every initial
  model is a key of the returned map, and so is every string dependency of every
  initial model and of every document in the map.
\<close>

lemma expand_closed_under_string_dependencies:
  assumes faithful: "\<forall>deps flag m. resolver deps flag = Inr m
                       \<longrightarrow> (\<forall>s. DStr s \<in> set deps \<longrightarrow> hasProp s m)"
    and ok: "expand resolver schedule models tfe = Some (Inr (m, log))"
  shows "(\<forall>model\<in>set models. \<exists>k. at_id model = Some k \<and> hasProp k m)
         \<and> (\<forall>w\<in>set models \<union> snd ` set m.
               \<forall>s. DStr s \<in> set (getModelDependencies w) \<longrightarrow> hasProp s m)"
proof -
  let ?st = "\<lparr>modelMap = [], pending = [], calls = []\<rparr>"
  from ok obtain st' s' where loop: "expandLoop resolver tfe schedule ?st models = Some (Inr (st', s'))"
    and m: "m = modelMap st'"
    by (auto simp: expand_def split: option.splits sum.splits)
  have "closedInv ([] @ models) st' \<and> pending st' = []"
  proof (rule expandLoop_invariant [where P = closedInv, OF _ _ _ _ loop])
    show "closedInv ms st2" if "closedInv ms st1" "i < length (pending st1)"
      "resumeExpand resolver tfe i st1 = Inr st2" for ms i st1 st2
      using closedInv_step [OF faithful that] .
    show "closedInv (ms @ [model]) (startExpand tfe model (st1\<lparr>modelMap := setProp (modelMap st1) k model\<rparr>))"
      if "closedInv ms st1" "at_id model = Some k" for ms st1 model k
      using closedInv_seed [OF that] .
    show "closedInv [] ?st" by (simp add: closedInv_def)
    show "pending ?st = []" by simp
  qed
  then have inv: "closedInv models st'" and idle: "pending st' = []" by simp_all
  have "hasProp s m" if "w \<in> set models \<union> snd ` set m" and "DStr s \<in> set (getModelDependencies w)" for w s
  proof -
    from inv that(1) have "covered st' w" unfolding closedInv_def m by blast
    with that(2) idle show ?thesis by (auto simp: covered_def m)
  qed
  moreover from inv have "\<forall>model\<in>set models. \<exists>k. at_id model = Some k \<and> hasProp k m"
    unfolding closedInv_def m by blast
  ultimately show ?thesis by blast
qed

text \<open>
  The synchronous variant never assigns into the map that its \<open>expand\<close> returns: whenever
  it returns, the map holds the initial models under their keys and nothing else,
  whatever the resolver returns and however deep the recursion may go.
\<close>

lemma expand_sync_loop_seeds:
  "expand_sync_loop depth resolver m0 models = Some (Inr m)
     \<Longrightarrow> m = foldl (\<lambda>m model. setProp m (idKey model) model) m0 models"
  by (induction models arbitrary: m0) (auto simp: Let_def split: option.splits sum.splits)

lemma expand_sync_returns_initial_models:
  "expand_sync depth resolver models = Some (Inr m)
     \<Longrightarrow> m = foldl (\<lambda>m model. setProp m (idKey model) model) [] models"
  by (simp add: expand_sync_def expand_sync_loop_seeds)

text \<open>
  For a model with one component whose schema the repository holds: when the resolver
  returns a \<open>Map\<close>, the variant returns the map with the initial model only; when it
  returns a plain object, the variant throws the \<open>TypeError\<close>.
\<close>

lemma expand_sync_examples:
  "expand_sync 2 (\<lambda>ds. map_sum id AsMap (exLookup ds)) [exUser]
     = Some (Inr [(''dtmi:com:example:User;1'', exUser)])
   \<and> expand_sync 2 (\<lambda>ds. map_sum id AsObject (exLookup ds)) [exUser]
     = Some (Inl (TypeError ''resolvedDependenciesMap.values is not a function''))"
  by (simp add: expand_sync_def idKey_def ex_defs run_defs eval_nat_numeral)

section \<open>Addressing\<close>

text \<open>
  C8. For every valid DTMI, \<open>toPath\<close> returns the path made of the lower-cased segments:
  the path segments joined by \<open>/\<close>, then \<open>-\<close>, the version and \<open>.json\<close>; no upper-case letter
  occurs in it. \<open>toPath\<close> is a function of the identifier alone, so a repeated call
  returns the same path. The path of \<open>dtmi:com:example:Thermostat;1\<close> is
  \<open>dtmi/com/example/thermostat-1.json\<close>.
\<close>

theorem toPath_lower_case:
  "(validDtmi d \<longrightarrow>
      (\<exists>p. toPath d = Inr p
         \<and> p = joinWith ''/'' (map (map toLowerCase) (butlast (splitOn '':;'' [] d)))
               @ ''-'' @ map toLowerCase (last (splitOn '':;'' [] d)) @ ''.json''
         \<and> (\<forall>c\<in>set p. c \<notin> set upperLetters)))
   \<and> toPath ''dtmi:com:example:Thermostat;1'' = Inr ''dtmi/com/example/thermostat-1.json''"
proof (intro conjI impI)
  assume valid: "validDtmi d"
  let ?segs = "splitOn '':;'' [] d"
  let ?p = "joinWith ''/'' (map (map toLowerCase) (butlast ?segs))
               @ ''-'' @ map toLowerCase (last ?segs) @ ''.json''"
  have eq: "toPath d = Inr ?p"
    using valid splitOn_not_Nil [of "'':;''" "[]" d]
    by (simp add: toPath_def Let_def map_butlast last_map)
  have "c \<notin> set upperLetters" if "c \<in> set ?p" for c
  proof -
    from that consider "c \<in> set (joinWith ''/'' (map (map toLowerCase) (butlast ?segs)))"
      | "c \<in> set ''-''" | "c \<in> set (map toLowerCase (last ?segs))" | "c \<in> set ''.json''"
      by auto
    then show ?thesis
    proof cases
      case 1
      with set_joinWith [of "''/''" "map (map toLowerCase) (butlast ?segs)"]
      have "c \<in> set ''/'' \<or> (\<exists>seg\<in>set (butlast ?segs). c \<in> toLowerCase ` set seg)"
        by auto
      then show ?thesis
        using toLowerCase_not_upper by (auto simp: upperLetters_def)
    next
      case 2
      then show ?thesis by (simp add: upperLetters_def)
    next
      case 3
      then show ?thesis using toLowerCase_not_upper by auto
    next
      case 4
      then show ?thesis by (auto simp: upperLetters_def)
    qed
  qed
  with eq show "\<exists>p. toPath d = Inr p \<and> p = ?p \<and> (\<forall>c\<in>set p. c \<notin> set upperLetters)"
    by blast
next
  show "toPath ''dtmi:com:example:Thermostat;1'' = Inr ''dtmi/com/example/thermostat-1.json''"
    by (simp add: path_defs)
qed

theorem toPath_lower_case_witness:
  "validDtmi ''dtmi:com:Example:Device_Info;12''
   \<and> toPath ''dtmi:com:Example:Device_Info;12'' = Inr ''dtmi/com/example/device_info-12.json''"
proof -
  have v: "validDtmi ''dtmi:com:Example:Device_Info;12''"
    by (simp add: path_defs)
  from toPath_lower_case [of "''dtmi:com:Example:Device_Info;12''"] v
  show ?thesis by (simp add: path_defs)
qed

end
